theory Spec2Isabelle
  imports Complex_Main
begin

section \<open>PNG compression level from the environment\<close>

text \<open>
  \<^verbatim>\<open>captura_oficial_png.get_png_compression\<close> reads \<^verbatim>\<open>PNG_COMPRESSION\<close> from
  \<^verbatim>\<open>os.environ\<close>, converts it with the builtin \<^verbatim>\<open>int\<close> and clamps the value to 0..9;
  a \<^verbatim>\<open>ValueError\<close> of the conversion is caught and gives 3.

  The environment is a map from names to strings. A character stands for a code point
  below 256. The builtin \<^verbatim>\<open>int(str)\<close> in base 10 accepts: surrounding whitespace, one
  optional sign, then decimal digits in which single underscores may separate digits.
  The whitespace it skips is that of C's \<^verbatim>\<open>isspace\<close> (code points 9 to 13 and 32) and,
  beyond ASCII, the Unicode spaces, of which 133 and 160 are below 256; the separators 28
  to 31, which \<^verbatim>\<open>str.strip\<close> removes, are not skipped.
  Anything else raises \<^verbatim>\<open>ValueError\<close>, as does a literal of more than 4300 digits
  (the interpreter's default limit for the conversion). Decimal digits and whitespace
  beyond code point 255 are outside this character type.
\<close>

datatype py_error = ValueError | TypeError | KeyError

definition py_isspace :: "char \<Rightarrow> bool" where
  "py_isspace c =
     (let n = (of_char c :: nat)
      in (9 \<le> n \<and> n \<le> 13) \<or> n = 32 \<or> n = 133 \<or> n = 160)"

definition py_isdigit :: "char \<Rightarrow> bool" where
  "py_isdigit c = (let n = (of_char c :: nat) in 48 \<le> n \<and> n \<le> 57)"

definition digit_value :: "char \<Rightarrow> int" where
  "digit_value c = int (of_char c) - 48"

definition py_strip :: "string \<Rightarrow> string" where
  "py_strip s = rev (dropWhile py_isspace (rev (dropWhile py_isspace s)))"

text \<open>
  The digit scan of the conversion: \<open>prev\<close> is the character read before, \<open>acc\<close> the
  value so far and \<open>n\<close> the number of digits. Two underscores in a row and an underscore
  at the end are errors.
\<close>

fun scan_digits :: "char \<Rightarrow> string \<Rightarrow> int \<Rightarrow> nat \<Rightarrow> (int \<times> nat) option" where
  "scan_digits prev [] acc n = (if prev = CHR ''_'' then None else Some (acc, n))"
| "scan_digits prev (c # cs) acc n =
     (if c = CHR ''_'' then (if prev = CHR ''_'' then None else scan_digits c cs acc n)
      else if py_isdigit c then scan_digits c cs (10 * acc + digit_value c) (Suc n)
      else None)"

definition int_max_str_digits :: nat where
  "int_max_str_digits = 4300"

definition py_int :: "string \<Rightarrow> py_error + int" where
  "py_int s =
     (let t = py_strip s;
          (sign, body) = (case t of
                            c # r \<Rightarrow> if c = CHR ''-'' then (- 1 :: int, r)
                                     else if c = CHR ''+'' then (1, r) else (1, t)
                          | [] \<Rightarrow> (1, t))
      in case body of
           [] \<Rightarrow> Inl ValueError
         | c # r \<Rightarrow>
             if c = CHR ''_'' then Inl ValueError
             else (case scan_digits CHR ''0'' body 0 0 of
                     None \<Rightarrow> Inl ValueError
                   | Some (v, n) \<Rightarrow>
                       if n = 0 \<or> int_max_str_digits < n then Inl ValueError
                       else Inr (sign * v)))"

type_synonym environ = "string \<rightharpoonup> string"

definition environ_get :: "environ \<Rightarrow> string \<Rightarrow> string \<Rightarrow> string" where
  "environ_get env k dflt = (case env k of None \<Rightarrow> dflt | Some v \<Rightarrow> v)"

definition get_png_compression :: "environ \<Rightarrow> py_error + int" where
  "get_png_compression env =
     (case py_int (environ_get env ''PNG_COMPRESSION'' ''3'') of
        Inr val \<Rightarrow> Inr (max 0 (min 9 val))
      | Inl ValueError \<Rightarrow> Inr 3
      | Inl e \<Rightarrow> Inl e)"

section \<open>Frames, queues and the controller's state\<close>

text \<open>
  Camera sockets are named by strings (\<^verbatim>\<open>str(socket)\<close>). Of a decoded image the
  controller reads only the mean of the gray image (\<^verbatim>\<open>gray.mean()\<close>), the variance of
  its Laplacian (\<^verbatim>\<open>cv2.Laplacian(gray, cv2.CV_64F).var()\<close>) and its shape; a frame
  is the record of these three. Comparisons of these measures are comparisons of reals.
\<close>

type_synonym cam = string

record frame =
  mean_val :: real
  lap_var :: real
  shape :: "nat \<times> nat"

text \<open>
  An output queue is filled by the camera driver and emptied by the controller.
  \<open>pending\<close> are the frames that arrived and were not yet taken, oldest first. \<open>taken\<close>
  counts the frames taken from the queue so far; no branch of the program reads it. A
  frame taken from a queue is held together with its ordinal in that queue (1 for the
  first frame taken), which gives every held frame its identity.
\<close>

record queue =
  pending :: "frame list"
  taken :: nat

type_synonym held = "nat \<times> frame"

text \<open>\<^verbatim>\<open>if queue.has(): ... queue.get()\<close>: the oldest pending frame, if any.\<close>

definition q_poll :: "queue \<Rightarrow> (held \<times> queue) option" where
  "q_poll q =
     (case pending q of
        [] \<Rightarrow> None
      | f # fs \<Rightarrow> Some ((Suc (taken q), f), q\<lparr>pending := fs, taken := Suc (taken q)\<rparr>))"

datatype event =
    TimeoutWarning "cam list"
  | QuitMsg
  | Postponed "cam list"
  | DarkRetry "(cam \<times> real) list" real int int
  | StillDark int "(cam \<times> real) list"
  | SharpRetry real real
  | SharpOK real
  | SavingBatch int
  | Imwrite cam string held
  | OneShotDone
  | FocusCamNotFound cam
  | FocusUnsupported cam
  | FocusScanning cam
  | SetManualFocus cam int
  | SetFocus cam int
  | SetLensPosition cam int
  | FocusSetFailed int
  | FocusSample int real
  | FocusBest cam int real
  | FocusNoBest cam

record config =
  headless :: bool
  auto_interval :: "real option"
  one_shot :: bool
  wait_all :: bool
  wait_timeout :: real
  warmup_frames :: int
  min_frames_each :: int
  min_brightness :: "real option"
  brightness_retry :: int
  brightness_wait :: real
  min_sharpness :: "real option"
  sharpness_frames :: int
  focus_scan :: bool
  focus_positions :: "int list option"
  focus_only_cam :: "cam option"

text \<open>
  The dictionaries \<^verbatim>\<open>warmup_counter\<close> and \<^verbatim>\<open>per_cam_frames\<close> have one key per socket
  and are only read at sockets; they are functions on camera names. \<^verbatim>\<open>frames\<close> is a
  dictionary whose order of insertion the program reads (\<^verbatim>\<open>list(...items())[:n]\<close>), so
  it is an association list. \<open>out\<close> collects what the program prints and the files it
  writes, in order.
\<close>

record state =
  queues :: "cam \<Rightarrow> queue"
  warmup_counter :: "cam \<Rightarrow> int"
  per_cam_frames :: "cam \<Rightarrow> int"
  frames :: "(cam \<times> held) list"
  capture_count :: int
  last_auto_capture :: real
  out :: "event list"

definition emit :: "event \<Rightarrow> state \<Rightarrow> state" where
  "emit e st = st\<lparr>out := out st @ [e]\<rparr>"

text \<open>\<^verbatim>\<open>d[k] = v\<close>: a key already present keeps its place, a new key goes last.\<close>

fun dict_set :: "'k \<Rightarrow> 'v \<Rightarrow> ('k \<times> 'v) list \<Rightarrow> ('k \<times> 'v) list" where
  "dict_set k v [] = [(k, v)]"
| "dict_set k v ((k', v') # d) =
     (if k' = k then (k, v) # d else (k', v') # dict_set k v d)"

text \<open>
  What the environment does between two points at which the program looks at it: the
  frames that arrived on the queues since the point before, the reading of
  \<^verbatim>\<open>time.time()\<close> and the key reported by \<^verbatim>\<open>cv2.waitKey(1) & 0xFF\<close> (255 when none).
\<close>

record tick =
  arrivals :: "(cam \<times> frame) list"
  clock :: real
  key :: nat

definition arrive :: "cam \<times> frame \<Rightarrow> state \<Rightarrow> state" where
  "arrive a st =
     (let q = queues st (fst a)
      in st\<lparr>queues := (queues st)(fst a := q\<lparr>pending := pending q @ [snd a]\<rparr>)\<rparr>)"

definition deliver :: "(cam \<times> frame) list \<Rightarrow> state \<Rightarrow> state" where
  "deliver as st = foldl (\<lambda>s a. arrive a s) st as"

subsection \<open>One pass over the queues (lines 187-197)\<close>

text \<open>
  The overlay shown in a window and the flag \<^verbatim>\<open>acquired_any\<close>, which only decides a
  sleep of 5 ms, change nothing of the state below and are left out; what arrives during
  a sleep is part of the next tick.
\<close>

definition poll_cam :: "config \<Rightarrow> cam \<Rightarrow> state \<Rightarrow> state" where
  "poll_cam cfg name st =
     (if name \<in> fst ` set (frames st) then st
      else case q_poll (queues st name) of
             None \<Rightarrow> st
           | Some (h, q') \<Rightarrow>
               let st1 = st\<lparr>queues := (queues st)(name := q')\<rparr>
               in if warmup_counter st1 name < warmup_frames cfg
                  then st1\<lparr>warmup_counter :=
                             (warmup_counter st1)(name := warmup_counter st1 name + 1)\<rparr>
                  else st1\<lparr>per_cam_frames :=
                             (per_cam_frames st1)(name := per_cam_frames st1 name + 1),
                           frames := dict_set name h (frames st1)\<rparr>)"

definition poll_pass :: "config \<Rightarrow> cam list \<Rightarrow> state \<Rightarrow> state" where
  "poll_pass cfg cams st = foldl (\<lambda>s name. poll_cam cfg name s) st cams"

subsection \<open>The wait loop (lines 185-232)\<close>

text \<open>
  Each turn of \<^verbatim>\<open>while True\<close> takes one tick: the arrivals before the pass, the clock
  read for \<open>timed_out\<close> and the key read in a window. \<open>Go\<close> is leaving the loop by
  \<^verbatim>\<open>break\<close>, \<open>Leave\<close> is \<^verbatim>\<open>return True\<close> on the quit key, and \<open>None\<close> is a loop
  still turning when the ticks end.
\<close>

datatype outcome = Go state | Leave state

definition have_all :: "cam list \<Rightarrow> state \<Rightarrow> bool" where
  "have_all cams st = (length (frames st) = length cams)"

definition timed_out :: "config \<Rightarrow> real \<Rightarrow> tick \<Rightarrow> bool" where
  "timed_out cfg start tk = (clock tk - start \<ge> wait_timeout cfg)"

definition quit_key :: "nat \<Rightarrow> bool" where
  "quit_key k = (k = 113 \<or> k = 81)"

definition capture_key :: "nat \<Rightarrow> bool" where
  "capture_key k = (k = 115 \<or> k = 83 \<or> k = 32)"

fun collect :: "config \<Rightarrow> cam list \<Rightarrow> real \<Rightarrow> tick list \<Rightarrow> state \<Rightarrow> outcome option" where
  "collect cfg cams start [] st = None"
| "collect cfg cams start (tk # tks) st =
     (let st1 = poll_pass cfg cams (deliver (arrivals tk) st)
      in if \<not> wait_all cfg then Some (Go st1)
         else if have_all cams st1 \<or> timed_out cfg start tk
         then Some (Go (if timed_out cfg start tk \<and> \<not> have_all cams st1 \<and> one_shot cfg
                        then emit (TimeoutWarning (map fst (frames st1))) st1 else st1))
         else if \<not> headless cfg \<and> quit_key (key tk) then Some (Leave (emit QuitMsg st1))
         else collect cfg cams start tks st1)"

subsection \<open>Quality gates (lines 264-314)\<close>

text \<open>The re-poll of both retry loops: every queue that has a frame replaces the entry.\<close>

definition refresh_cam :: "cam \<Rightarrow> state \<Rightarrow> state" where
  "refresh_cam sock st =
     (case q_poll (queues st sock) of
        None \<Rightarrow> st
      | Some (h, q') \<Rightarrow>
          st\<lparr>queues := (queues st)(sock := q'), frames := dict_set sock h (frames st)\<rparr>)"

definition refresh :: "cam list \<Rightarrow> state \<Rightarrow> state" where
  "refresh cams st = foldl (\<lambda>s sock. refresh_cam sock s) st cams"

definition too_dark :: "real \<Rightarrow> (cam \<times> held) list \<Rightarrow> (cam \<times> real) list" where
  "too_dark mb fs =
     map (\<lambda>(sock, h). (sock, mean_val (snd h)))
         (filter (\<lambda>(sock, h). mean_val (snd h) < mb) fs)"

text \<open>
  The frames arriving during the i-th wait of a retry loop are the i-th element of a
  list; a wait beyond the list sees no arrival.
\<close>

definition first_wait :: "'a list list \<Rightarrow> 'a list" where
  "first_wait ws = (case ws of [] \<Rightarrow> [] | w # _ \<Rightarrow> w)"

function brightness_loop ::
  "config \<Rightarrow> cam list \<Rightarrow> real \<Rightarrow> (cam \<times> frame) list list \<Rightarrow> int \<Rightarrow> state \<Rightarrow> state" where
  "brightness_loop cfg cams mb ws attempt st =
     (if attempt \<le> brightness_retry cfg then
        (let dark = too_dark mb (frames st)
         in if dark = [] then st
            else if attempt + 1 > brightness_retry cfg
            then emit (StillDark (brightness_retry cfg) dark) st
            else brightness_loop cfg cams mb (tl ws) (attempt + 1)
                   (refresh cams (deliver (first_wait ws)
                      (emit (DarkRetry dark (brightness_wait cfg) (attempt + 1)
                               (brightness_retry cfg)) st))))
      else st)"
  by pat_completeness auto
termination
  by (relation "measure (\<lambda>(cfg, cams, mb, ws, attempt, st). nat (brightness_retry cfg + 1 - attempt))")
    auto

definition brightness_stage :: "config \<Rightarrow> cam list \<Rightarrow> (cam \<times> frame) list list \<Rightarrow> state \<Rightarrow> state" where
  "brightness_stage cfg cams ws st =
     (case min_brightness cfg of
        None \<Rightarrow> st
      | Some mb \<Rightarrow> brightness_loop cfg cams mb ws 0 st)"

text \<open>\<^verbatim>\<open>xs[:n]\<close>: a negative \<open>n\<close> counts from the end.\<close>

definition py_take :: "int \<Rightarrow> 'a list \<Rightarrow> 'a list" where
  "py_take n xs = (if 0 \<le> n then take (nat n) xs else take (length xs - nat (- n)) xs)"

definition sharp_values :: "config \<Rightarrow> state \<Rightarrow> real list" where
  "sharp_values cfg st = map (\<lambda>(sock, h). lap_var (snd h)) (py_take (sharpness_frames cfg) (frames st))"

definition avg_sharp :: "real list \<Rightarrow> real" where
  "avg_sharp vs = sum_list vs / real (length vs)"

function sharpness_loop ::
  "config \<Rightarrow> cam list \<Rightarrow> real \<Rightarrow> (cam \<times> frame) list list \<Rightarrow> nat \<Rightarrow> state \<Rightarrow> state" where
  "sharpness_loop cfg cams ms ws sharp_attempts st =
     (if sharp_attempts < 3 then
        (let vs = sharp_values cfg st
         in if vs \<noteq> [] then
              (if avg_sharp vs < ms
               then sharpness_loop cfg cams ms (tl ws) (sharp_attempts + 1)
                      (refresh cams (deliver (first_wait ws) (emit (SharpRetry (avg_sharp vs) ms) st)))
               else emit (SharpOK (avg_sharp vs)) st)
            else st)
      else st)"
  by pat_completeness auto
termination
  by (relation "measure (\<lambda>(cfg, cams, ms, ws, sharp_attempts, st). 3 - sharp_attempts)") auto

definition sharpness_stage :: "config \<Rightarrow> cam list \<Rightarrow> (cam \<times> frame) list list \<Rightarrow> state \<Rightarrow> state" where
  "sharpness_stage cfg cams ws st =
     (case min_sharpness cfg of
        None \<Rightarrow> st
      | Some ms \<Rightarrow> sharpness_loop cfg cams ms ws 0 st)"

subsection \<open>Saving a batch (lines 316-334)\<close>

text \<open>
  One file per held frame, in the order of the dictionary. The name of the file is made
  of the prefix, the socket, the time stamp and the shape of the frame; the event of a
  write keeps the socket, the time stamp and the frame with its ordinal. Whether
  \<^verbatim>\<open>cv2.imwrite\<close> succeeds only changes the line printed for the file.
\<close>

definition save_batch :: "string \<Rightarrow> state \<Rightarrow> state" where
  "save_batch timestamp st =
     (let st1 = emit (SavingBatch (capture_count st + 1))
                  (st\<lparr>capture_count := capture_count st + 1\<rparr>)
      in foldl (\<lambda>s (sock, h). emit (Imwrite sock timestamp h) s) st1 (frames st))"

subsection \<open>One turn of the main loop (lines 181-334)\<close>

record cycle_env =
  start_wait_cycle :: real
  passes :: "tick list"
  now :: real
  key_pressed :: nat
  dark_waits :: "(cam \<times> frame) list list"
  sharp_waits :: "(cam \<times> frame) list list"
  timestamp :: string

definition lacking :: "config \<Rightarrow> cam list \<Rightarrow> state \<Rightarrow> cam list" where
  "lacking cfg cams st = filter (\<lambda>c. per_cam_frames st c < min_frames_each cfg) cams"

definition auto_due :: "config \<Rightarrow> cycle_env \<Rightarrow> state \<Rightarrow> bool" where
  "auto_due cfg env st =
     (case auto_interval cfg of
        None \<Rightarrow> False
      | Some i \<Rightarrow> headless cfg \<and> i \<noteq> 0 \<and> frames st \<noteq> []
                  \<and> now env - last_auto_capture st \<ge> i)"

text \<open>
  Lines 234-255. In a window the key is read once; without a window it is 255, neither
  the quit key nor a capture key.
\<close>

definition do_capture :: "config \<Rightarrow> cycle_env \<Rightarrow> state \<Rightarrow> bool" where
  "do_capture cfg env st =
     (auto_due cfg env st
      \<or> (\<not> headless cfg \<and> capture_key (key_pressed env) \<and> frames st \<noteq> [])
      \<or> (one_shot cfg \<and> frames st \<noteq> [] \<and> capture_count st = 0))"

definition quality_gates :: "config \<Rightarrow> cam list \<Rightarrow> cycle_env \<Rightarrow> state \<Rightarrow> state" where
  "quality_gates cfg cams env st =
     sharpness_stage cfg cams (sharp_waits env) (brightness_stage cfg cams (dark_waits env) st)"

definition evaluate :: "config \<Rightarrow> cam list \<Rightarrow> cycle_env \<Rightarrow> state \<Rightarrow> outcome" where
  "evaluate cfg cams env st =
     (let st1 = (if auto_due cfg env st then st\<lparr>last_auto_capture := now env\<rparr> else st)
      in if \<not> headless cfg \<and> quit_key (key_pressed env) then Leave (emit QuitMsg st1)
         else if do_capture cfg env st \<and> frames st \<noteq> [] then
           (if lacking cfg cams st1 \<noteq> [] then Go (emit (Postponed (lacking cfg cams st1)) st1)
            else
              (let st4 = save_batch (timestamp env) (quality_gates cfg cams env st1)
               in if one_shot cfg then Leave (emit OneShotDone st4) else Go st4))
         else Go st1)"

fun state_of :: "outcome \<Rightarrow> state" where
  "state_of (Go st) = st"
| "state_of (Leave st) = st"

definition cycle :: "config \<Rightarrow> cam list \<Rightarrow> cycle_env \<Rightarrow> state \<Rightarrow> outcome option" where
  "cycle cfg cams env st =
     (case collect cfg cams (start_wait_cycle env) (passes env) (st\<lparr>frames := []\<rparr>) of
        None \<Rightarrow> None
      | Some (Leave st') \<Rightarrow> Some (Leave st')
      | Some (Go st') \<Rightarrow> Some (evaluate cfg cams env st'))"

text \<open>
  \<^verbatim>\<open>while pipeline.isRunning()\<close>: one element of the list for each turn in which the
  pipeline was running; the list ends when it no longer is.
\<close>

fun run :: "config \<Rightarrow> cam list \<Rightarrow> cycle_env list \<Rightarrow> state \<Rightarrow> state option" where
  "run cfg cams [] st = Some st"
| "run cfg cams (env # envs) st =
     (case cycle cfg cams env st of
        None \<Rightarrow> None
      | Some (Leave st') \<Rightarrow> Some st'
      | Some (Go st') \<Rightarrow> run cfg cams envs st')"

definition dark_retries :: "event list \<Rightarrow> nat" where
  "dark_retries evs = length (filter (\<lambda>e. case e of DarkRetry d w a r \<Rightarrow> True | _ \<Rightarrow> False) evs)"


definition sharp_retries :: "event list \<Rightarrow> nat" where
  "sharp_retries evs = length (filter (\<lambda>e. case e of SharpRetry a m \<Rightarrow> True | _ \<Rightarrow> False) evs)"


definition writes :: "event list \<Rightarrow> (cam \<times> held) list" where
  "writes evs = concat (map (\<lambda>e. case e of Imwrite c ts h \<Rightarrow> [(c, h)] | _ \<Rightarrow> []) evs)"

section \<open>Focus scan before the main loop (lines 116-178)\<close>

text \<open>
  A camera node offers a manual focus or not; the program asks with \<^verbatim>\<open>hasattr\<close> for
  three method names, in this order.
\<close>

record cam_node =
  has_setManualFocus :: bool
  has_setFocus :: bool
  has_setLensPosition :: bool

definition supported :: "cam_node \<Rightarrow> bool" where
  "supported n = (has_setManualFocus n \<or> has_setFocus n \<or> has_setLensPosition n)"

text \<open>The call made by the \<^verbatim>\<open>if/elif/elif\<close> chain, if any.\<close>

definition focus_call :: "cam \<Rightarrow> cam_node \<Rightarrow> int \<Rightarrow> event option" where
  "focus_call c n pos =
     (if has_setManualFocus n then Some (SetManualFocus c pos)
      else if has_setFocus n then Some (SetFocus c pos)
      else if has_setLensPosition n then Some (SetLensPosition c pos)
      else None)"

definition command_focus :: "cam \<Rightarrow> cam_node \<Rightarrow> int \<Rightarrow> state \<Rightarrow> state" where
  "command_focus c n pos st = (case focus_call c n pos of None \<Rightarrow> st | Some e \<Rightarrow> emit e st)"

definition call_events :: "event option \<Rightarrow> event list" where
  "call_events r = (case r of None \<Rightarrow> [] | Some e \<Rightarrow> [e])"

text \<open>
  The environment of the scan of one camera: the clock at the start of the drain and one
  tick for each test of its loop; for each position, whether the focus call raises, the
  clock when the wait for a frame starts and one tick for each turn of that wait; and
  whether the last focus call raises.
\<close>

record probe_env =
  set_raises :: bool
  eval_start :: real
  eval_ticks :: "tick list"

record scan_env =
  drain_start :: real
  drain_ticks :: "tick list"
  probes :: "probe_env list"
  apply_raises :: bool

definition take_from :: "cam \<Rightarrow> queue \<Rightarrow> state \<Rightarrow> state" where
  "take_from c q' st = st\<lparr>queues := (queues st)(c := q')\<rparr>"

fun drain :: "cam \<Rightarrow> real \<Rightarrow> tick list \<Rightarrow> state \<Rightarrow> state option" where
  "drain c t0 [] st = None"
| "drain c t0 (tk # tks) st =
     (let st1 = deliver (arrivals tk) st
      in if clock tk - t0 < 1 then
           (case q_poll (queues st1 c) of
              None \<Rightarrow> Some st1
            | Some (h, q') \<Rightarrow> drain c t0 tks (take_from c q' st1))
         else Some st1)"

fun probe :: "cam \<Rightarrow> real \<Rightarrow> tick list \<Rightarrow> state \<Rightarrow> (real option \<times> state) option" where
  "probe c t0 [] st = None"
| "probe c t0 (tk # tks) st =
     (let st1 = deliver (arrivals tk) st
      in if clock tk - t0 < 1 / 2 then
           (case q_poll (queues st1 c) of
              None \<Rightarrow> probe c t0 tks st1
            | Some (h, q') \<Rightarrow> Some (Some (lap_var (snd h)), take_from c q' st1))
         else Some (None, st1))"

text \<open>Lines 163-165: a strictly larger variance replaces the best one.\<close>

definition better :: "real \<times> int option \<Rightarrow> int \<Rightarrow> real \<Rightarrow> real \<times> int option" where
  "better best pos sharp_var = (if sharp_var > fst best then (sharp_var, Some pos) else best)"

fun scan_positions ::
  "cam \<Rightarrow> cam_node \<Rightarrow> int list \<Rightarrow> probe_env list \<Rightarrow> real \<times> int option \<Rightarrow> state
     \<Rightarrow> ((real \<times> int option) \<times> state) option" where
  "scan_positions c n [] pes best st = Some (best, st)"
| "scan_positions c n (pos # ps) [] best st = None"
| "scan_positions c n (pos # ps) (pe # pes) best st =
     (let st1 = command_focus c n pos st
      in if set_raises pe then scan_positions c n ps pes best (emit (FocusSetFailed pos) st1)
         else (case probe c (eval_start pe) (eval_ticks pe) st1 of
                 None \<Rightarrow> None
               | Some (None, st2) \<Rightarrow> scan_positions c n ps pes best st2
               | Some (Some v, st2) \<Rightarrow>
                   scan_positions c n ps pes (better best pos v) (emit (FocusSample pos v) st2)))"

text \<open>
  The scan of one camera. An exception of the focus call that applies the best position
  is swallowed (\<^verbatim>\<open>except Exception: pass\<close>), so \<open>apply_raises\<close> changes nothing
  of what follows; the event stands for the call.
\<close>

definition scan_cam :: "cam \<Rightarrow> cam_node \<Rightarrow> int list \<Rightarrow> scan_env \<Rightarrow> state \<Rightarrow> state option" where
  "scan_cam c n ps e st =
     (case drain c (drain_start e) (drain_ticks e) (emit (FocusScanning c) st) of
        None \<Rightarrow> None
      | Some st1 \<Rightarrow>
          (case scan_positions c n ps (probes e) (- 1, None) st1 of
             None \<Rightarrow> None
           | Some ((best_var, best_pos), st2) \<Rightarrow>
               (case best_pos of
                  Some p \<Rightarrow> Some (command_focus c n p (emit (FocusBest c p best_var) st2))
                | None \<Rightarrow> Some (emit (FocusNoBest c) st2))))"

text \<open>
  \<open>nodes\<close> are the items of \<^verbatim>\<open>cam_nodes\<close>, one per socket. Each target camera has its
  element of the environment list, read or not.
\<close>

fun scan_all ::
  "(cam \<times> cam_node) list \<Rightarrow> int list \<Rightarrow> cam list \<Rightarrow> scan_env list \<Rightarrow> state \<Rightarrow> state option" where
  "scan_all nodes ps [] es st = Some st"
| "scan_all nodes ps (c # cs) [] st = None"
| "scan_all nodes ps (c # cs) (e # es) st =
     (case map_of nodes c of
        None \<Rightarrow> scan_all nodes ps cs es (emit (FocusCamNotFound c) st)
      | Some n \<Rightarrow>
          if \<not> supported n then scan_all nodes ps cs es (emit (FocusUnsupported c) st)
          else (case scan_cam c n ps e st of
                  None \<Rightarrow> None
                | Some st' \<Rightarrow> scan_all nodes ps cs es st'))"

definition default_positions :: "int list" where
  "default_positions = [50, 80, 110, 140, 170, 200]"

definition positions_of :: "config \<Rightarrow> int list" where
  "positions_of cfg =
     (case focus_positions cfg of
        None \<Rightarrow> default_positions
      | Some ps \<Rightarrow> if ps = [] then default_positions else ps)"

definition target_cams :: "config \<Rightarrow> (cam \<times> cam_node) list \<Rightarrow> cam list" where
  "target_cams cfg nodes =
     (case focus_only_cam cfg of
        None \<Rightarrow> map fst nodes
      | Some c \<Rightarrow> if c = [] then map fst nodes else [c])"

definition focus_phase ::
  "config \<Rightarrow> (cam \<times> cam_node) list \<Rightarrow> scan_env list \<Rightarrow> state \<Rightarrow> state option" where
  "focus_phase cfg nodes es st =
     (if focus_scan cfg then scan_all nodes (positions_of cfg) (target_cams cfg nodes) es st
      else Some st)"

text \<open>The samples of a scan are the \<open>FocusSample\<close> lines it prints.\<close>

definition samples_of :: "event list \<Rightarrow> (int \<times> real) list" where
  "samples_of evs = concat (map (\<lambda>e. case e of FocusSample p v \<Rightarrow> [(p, v)] | _ \<Rightarrow> []) evs)"


definition commands_to :: "cam \<Rightarrow> event list \<Rightarrow> event list" where
  "commands_to c evs =
     filter (\<lambda>e. case e of SetManualFocus c' p \<Rightarrow> c' = c | SetFocus c' p \<Rightarrow> c' = c
                          | SetLensPosition c' p \<Rightarrow> c' = c | _ \<Rightarrow> False) evs"

section \<open>The whole program\<close>

definition empty_queue :: queue where
  "empty_queue = \<lparr>pending = [], taken = 0\<rparr>"

definition init_state :: state where
  "init_state = \<lparr>queues = (\<lambda>c. empty_queue), warmup_counter = (\<lambda>c. 0),
     per_cam_frames = (\<lambda>c. 0), frames = [], capture_count = 0, last_auto_capture = 0,
     out = []\<rparr>"

definition main ::
  "config \<Rightarrow> (cam \<times> cam_node) list \<Rightarrow> scan_env list \<Rightarrow> cycle_env list \<Rightarrow> state option" where
  "main cfg nodes ses ces =
     (case focus_phase cfg nodes ses init_state of
        None \<Rightarrow> None
      | Some st \<Rightarrow> run cfg (map fst nodes) ces st)"

subsection \<open>Measures of the wait loop\<close>

text \<open>
  The state after the passes of a list of ticks, whatever the test at the end of each
  pass says; a frame held for every camera; and the condition on which the wait loop
  is left after pass number \<open>k\<close> (counted from 0).
\<close>

fun after_passes :: "config \<Rightarrow> cam list \<Rightarrow> state \<Rightarrow> tick list \<Rightarrow> state" where
  "after_passes cfg cams st [] = st"
| "after_passes cfg cams st (tk # tks) =
     after_passes cfg cams (poll_pass cfg cams (deliver (arrivals tk) st)) tks"

definition all_held :: "cam list \<Rightarrow> state \<Rightarrow> bool" where
  "all_held cams st = (\<forall>c \<in> set cams. c \<in> fst ` set (frames st))"

definition proceeds_at ::
  "config \<Rightarrow> cam list \<Rightarrow> real \<Rightarrow> state \<Rightarrow> tick list \<Rightarrow> nat \<Rightarrow> bool" where
  "proceeds_at cfg cams start st tks k =
     (all_held cams (after_passes cfg cams st (take (Suc k) tks))
      \<or> wait_timeout cfg \<le> clock (tks ! k) - start)"

definition leaving_state ::
  "config \<Rightarrow> cam list \<Rightarrow> real \<Rightarrow> state \<Rightarrow> tick list \<Rightarrow> nat \<Rightarrow> state" where
  "leaving_state cfg cams start st tks k =
     (let s = after_passes cfg cams st (take (Suc k) tks)
      in if wait_timeout cfg \<le> clock (tks ! k) - start \<and> \<not> all_held cams s \<and> one_shot cfg
         then emit (TimeoutWarning (map fst (frames s))) s else s)"

definition keys_ok :: "cam list \<Rightarrow> state \<Rightarrow> bool" where
  "keys_ok cams st = (distinct (map fst (frames st)) \<and> fst ` set (frames st) \<subseteq> set cams)"

subsection \<open>Frames past warm-up\<close>

text \<open>
  A held frame is past warm-up when its ordinal in its queue is greater than
  \<open>warmup_frames\<close>: at least that many frames were taken from the queue before it.
  \<open>warm_inv\<close> is the invariant of the program that carries this from the queues to
  the files; \<open>same_but_taken\<close> relates two states that differ only in queues whose
  counts of taken frames did not decrease, and in lines printed that are not writes.
\<close>

definition past_warmup :: "config \<Rightarrow> (cam \<times> held) list \<Rightarrow> bool" where
  "past_warmup cfg xs = (\<forall>x \<in> set xs. warmup_frames cfg < int (fst (snd x)))"

definition warm_inv :: "config \<Rightarrow> state \<Rightarrow> bool" where
  "warm_inv cfg st =
     ((\<forall>c. warmup_counter st c \<le> int (taken (queues st c)))
      \<and> (\<forall>c. 1 \<le> per_cam_frames st c \<longrightarrow> warmup_frames cfg \<le> warmup_counter st c)
      \<and> past_warmup cfg (frames st)
      \<and> past_warmup cfg (writes (out st)))"

definition all_counted :: "cam list \<Rightarrow> state \<Rightarrow> bool" where
  "all_counted cams st = (\<forall>c \<in> set cams. 1 \<le> per_cam_frames st c)"

definition same_but_taken :: "state \<Rightarrow> state \<Rightarrow> bool" where
  "same_but_taken st st' =
     (frames st' = frames st \<and> warmup_counter st' = warmup_counter st
      \<and> per_cam_frames st' = per_cam_frames st \<and> writes (out st') = writes (out st)
      \<and> (\<forall>c. taken (queues st c) \<le> taken (queues st' c)))"

section \<open>Example inputs\<close>

definition ex_node :: cam_node where
  "ex_node = \<lparr>has_setManualFocus = True, has_setFocus = False, has_setLensPosition = False\<rparr>"

definition ex_frame :: "real \<Rightarrow> real \<Rightarrow> frame" where
  "ex_frame m v = \<lparr>mean_val = m, lap_var = v, shape = (1080, 1920)\<rparr>"

definition ex_probe :: "real \<Rightarrow> probe_env" where
  "ex_probe v = \<lparr>set_raises = False, eval_start = 0,
     eval_ticks = [\<lparr>arrivals = [(''CAM_A'', ex_frame 100 v)], clock = 0, key = 255\<rparr>]\<rparr>"

definition ex_scan_env :: scan_env where
  "ex_scan_env = \<lparr>drain_start = 0, drain_ticks = [\<lparr>arrivals = [], clock = 0, key = 255\<rparr>],
     probes = [ex_probe 10, ex_probe 35, ex_probe 22], apply_raises = False\<rparr>"

definition ex_fixed :: cam_node where
  "ex_fixed = \<lparr>has_setManualFocus = False, has_setFocus = False, has_setLensPosition = False\<rparr>"

definition ex_nodes :: "(cam \<times> cam_node) list" where
  "ex_nodes = [(''CAM_B'', ex_fixed), (''CAM_A'', ex_node)]"

definition ex_cfg :: config where
  "ex_cfg = \<lparr>headless = True, auto_interval = None, one_shot = True, wait_all = False,
     wait_timeout = 2, warmup_frames = 2, min_frames_each = 1, min_brightness = None,
     brightness_retry = 2, brightness_wait = 1 / 2, min_sharpness = None, sharpness_frames = 3,
     focus_scan = False, focus_positions = None, focus_only_cam = None\<rparr>"

definition ex_env :: cycle_env where
  "ex_env = \<lparr>start_wait_cycle = 0, passes = [], now = 0, key_pressed = 255, dark_waits = [],
     sharp_waits = [], timestamp = ''20240101_120000''\<rparr>"

definition ex_dark_cfg :: config where
  "ex_dark_cfg = ex_cfg\<lparr>min_brightness := Some 40\<rparr>"

definition ex_held_state :: "frame \<Rightarrow> state" where
  "ex_held_state f = init_state\<lparr>queues := (\<lambda>c. \<lparr>pending = [], taken = 3\<rparr>),
     warmup_counter := (\<lambda>c. 2), per_cam_frames := (\<lambda>c. 1), frames := [(''CAM_A'', (3, f))]\<rparr>"

definition ex_cycle :: "(cam \<times> frame) list \<Rightarrow> cycle_env" where
  "ex_cycle arr = ex_env\<lparr>passes := [\<lparr>arrivals = arr, clock = 0, key = 255\<rparr>]\<rparr>"

definition ex_three_A :: "cycle_env list" where
  "ex_three_A = [ex_cycle [(''CAM_A'', ex_frame 100 50)], ex_cycle [(''CAM_A'', ex_frame 100 50)],
                 ex_cycle [(''CAM_A'', ex_frame 100 50)] ]"

definition ex_waiting_B :: state where
  "ex_waiting_B = (ex_held_state (ex_frame 100 50))
     \<lparr>per_cam_frames := (\<lambda>c. if c = ''CAM_A'' then 1 else 0)\<rparr>"



definition ex_two_held :: state where
  "ex_two_held = init_state\<lparr>queues := (\<lambda>c. \<lparr>pending = [], taken = 3\<rparr>),
     warmup_counter := (\<lambda>c. 2), per_cam_frames := (\<lambda>c. 1),
     frames := [(''CAM_A'', (3, ex_frame 10 50)), (''CAM_B'', (3, ex_frame 100 50))]\<rparr>"

definition ex_blur_cfg :: config where
  "ex_blur_cfg = ex_cfg\<lparr>min_sharpness := Some 100\<rparr>"

definition ex_wait_cfg :: config where
  "ex_wait_cfg = ex_cfg\<lparr>wait_all := True, warmup_frames := 0\<rparr>"

definition ex_wait_ticks :: "tick list" where
  "ex_wait_ticks = [\<lparr>arrivals = [(''CAM_A'', ex_frame 100 50)], clock = 1 / 2, key = 255\<rparr>,
                    \<lparr>arrivals = [], clock = 3 / 2, key = 255\<rparr>,
                    \<lparr>arrivals = [], clock = 2, key = 255\<rparr>,
                    \<lparr>arrivals = [(''CAM_B'', ex_frame 100 50)], clock = 3, key = 255\<rparr>]"

definition ex_zero_min_cfg :: config where
  "ex_zero_min_cfg = ex_cfg\<lparr>min_frames_each := 0, min_brightness := Some 40\<rparr>"

definition ex_dark_third :: "cycle_env list" where
  "ex_dark_third = [ex_cycle [(''CAM_A'', ex_frame 10 50)], ex_cycle [(''CAM_A'', ex_frame 10 50)],
     (ex_cycle [(''CAM_A'', ex_frame 10 50)])
       \<lparr>dark_waits := [ [(''CAM_A'', ex_frame 100 50), (''CAM_B'', ex_frame 100 50)] ]\<rparr>]"



section \<open>Properties\<close>

lemma py_int_only_ValueError: "py_int s = Inl e \<Longrightarrow> e = ValueError"
  by (auto simp: py_int_def Let_def split: list.splits if_splits option.splits prod.splits)

lemma py_int_3: "py_int ''3'' = Inr 3"
  by (simp add: py_int_def py_strip_def py_isspace_def py_isdigit_def digit_value_def
      int_max_str_digits_def)

text \<open>
  C10. For every environment (variable absent, an integer literal, or any other string)
  \<open>get_png_compression\<close> returns normally, with an integer between 0 and 9: the clamped
  value when the string converts, and 3 when the variable is absent or does not convert.
\<close>

theorem get_png_compression_range:
  "\<exists>v. get_png_compression env = Inr v \<and> 0 \<le> v \<and> v \<le> 9
       \<and> v = (case py_int (environ_get env ''PNG_COMPRESSION'' ''3'') of
                Inr val \<Rightarrow> max 0 (min 9 val) | Inl e \<Rightarrow> 3)
       \<and> (env ''PNG_COMPRESSION'' = None \<longrightarrow> v = 3)"
proof (cases "py_int (environ_get env ''PNG_COMPRESSION'' ''3'')")
  case (Inl e)
  then have "e = ValueError" by (rule py_int_only_ValueError)
  with Inl show ?thesis
    by (auto simp: get_png_compression_def environ_get_def py_int_3 split: option.splits)
next
  case (Inr val)
  then show ?thesis
    by (auto simp: get_png_compression_def environ_get_def py_int_3 split: option.splits)
qed

theorem get_png_compression_range_witness:
  "get_png_compression Map.empty = Inr 3
   \<and> get_png_compression [''PNG_COMPRESSION'' \<mapsto> '' +1_2 ''] = Inr 9
   \<and> get_png_compression [''PNG_COMPRESSION'' \<mapsto> ''-4''] = Inr 0
   \<and> get_png_compression [''PNG_COMPRESSION'' \<mapsto> ''7''] = Inr 7
   \<and> get_png_compression [''PNG_COMPRESSION'' \<mapsto> ''max''] = Inr 3
   \<and> get_png_compression [''PNG_COMPRESSION'' \<mapsto> [CHR 0x1C, CHR ''7'']] = Inr 3
   \<and> get_png_compression [''PNG_COMPRESSION'' \<mapsto> [CHR 0x85, CHR ''7'', CHR 0xA0]] = Inr 7"
proof -
  have a: "get_png_compression Map.empty = Inr 3"
    using get_png_compression_range [of Map.empty] by auto
  have b: "py_int '' +1_2 '' = Inr 12" "py_int ''-4'' = Inr (- 4)" "py_int ''7'' = Inr 7"
    "py_int ''max'' = Inl ValueError" "py_int [CHR 0x1C, CHR ''7''] = Inl ValueError"
    "py_int [CHR 0x85, CHR ''7'', CHR 0xA0] = Inr 7"
    by (simp_all add: py_int_def py_strip_def py_isspace_def py_isdigit_def digit_value_def
        int_max_str_digits_def)
  show ?thesis
    using a b by (simp add: get_png_compression_def environ_get_def)
qed

subsection \<open>Focus selection\<close>

lemma samples_of_append: "samples_of (xs @ ys) = samples_of xs @ samples_of ys"
  by (simp add: samples_of_def)

lemma samples_of_Cons: "samples_of (e # es) = samples_of [e] @ samples_of es"
  by (simp add: samples_of_def)

lemma samples_of_single:
  "samples_of [e] = (case e of FocusSample p v \<Rightarrow> [(p, v)] | _ \<Rightarrow> [])"
  by (simp add: samples_of_def)

lemma out_command_focus:
  "\<exists>cmd. out (command_focus c n pos st) = out st @ cmd \<and> samples_of cmd = []"
  by (auto simp: command_focus_def focus_call_def emit_def samples_of_def)

lemma out_arrive [simp]: "out (arrive a st) = out st"
  by (simp add: arrive_def Let_def)

lemma out_deliver [simp]: "out (deliver as st) = out st"
  unfolding deliver_def by (induction as arbitrary: st) auto

lemma out_take_from [simp]: "out (take_from c q st) = out st"
  by (simp add: take_from_def)

lemma out_probe: "probe c t0 tks st = Some (r, st') \<Longrightarrow> out st' = out st"
  by (induction tks arbitrary: st) (auto simp: Let_def split: if_splits option.splits)

lemma out_drain: "drain c t0 tks st = Some st' \<Longrightarrow> out st' = out st"
  by (induction tks arbitrary: st) (auto simp: Let_def split: if_splits option.splits)

lemma scan_positions_out:
  "scan_positions c n ps pes best st = Some (best', st') \<Longrightarrow>
   \<exists>new. out st' = out st @ new
      \<and> best' = foldl (\<lambda>b (p, v). better b p v) best (samples_of new)"
proof (induction ps arbitrary: pes best st)
  case Nil
  then show ?case by (simp add: samples_of_def)
next
  case (Cons pos ps)
  show ?case
  proof (cases pes)
    case Nil
    with Cons.prems show ?thesis by simp
  next
    case (Cons pe pes')
    note pes = Cons
    obtain cmd where cmd: "out (command_focus c n pos st) = out st @ cmd" "samples_of cmd = []"
      using out_command_focus by blast
    show ?thesis
    proof (cases "set_raises pe")
      case True
      then have "scan_positions c n ps pes' best (emit (FocusSetFailed pos) (command_focus c n pos st))
                 = Some (best', st')"
        using Cons.prems pes by (simp add: Let_def)
      from Cons.IH[OF this] obtain new where
        "out st' = out (emit (FocusSetFailed pos) (command_focus c n pos st)) @ new"
        "best' = foldl (\<lambda>b (p, v). better b p v) best (samples_of new)"
        by blast
      then show ?thesis using cmd
        by (intro exI[of _ "cmd @ [FocusSetFailed pos] @ new"])
          (simp add: emit_def samples_of_append samples_of_single samples_of_Cons[of _ new])
    next
      case False
      from Cons.prems False pes obtain r st2 where
        pr: "probe c (eval_start pe) (eval_ticks pe) (command_focus c n pos st) = Some (r, st2)"
        by (auto simp: Let_def split: option.splits)
      have o2: "out st2 = out st @ cmd" using out_probe[OF pr] cmd by simp
      show ?thesis
      proof (cases r)
        case None
        then have "scan_positions c n ps pes' best st2 = Some (best', st')"
          using Cons.prems pes False pr by (simp add: Let_def)
        from Cons.IH[OF this] obtain new where "out st' = out st2 @ new"
          "best' = foldl (\<lambda>b (p, v). better b p v) best (samples_of new)"
          by blast
        then show ?thesis using o2 cmd
          by (intro exI[of _ "cmd @ new"]) (simp add: samples_of_append)
      next
        case (Some v)
        then have "scan_positions c n ps pes' (better best pos v) (emit (FocusSample pos v) st2)
                   = Some (best', st')"
          using Cons.prems pes False pr by (simp add: Let_def)
        from Cons.IH[OF this] obtain new where "out st' = out (emit (FocusSample pos v) st2) @ new"
          "best' = foldl (\<lambda>b (p, v). better b p v) (better best pos v) (samples_of new)"
          by blast
        then show ?thesis using o2 cmd
          by (intro exI[of _ "cmd @ [FocusSample pos v] @ new"])
            (simp add: emit_def samples_of_append samples_of_single samples_of_Cons[of _ new])
      qed
    qed
  qed
qed



lemma out_command_focus_eq:
  "out (command_focus c n pos st) = out st @ call_events (focus_call c n pos)"
  by (simp add: command_focus_def call_events_def emit_def split: option.splits)

lemma samples_of_call [simp]: "samples_of (call_events (focus_call c n pos)) = []"
  by (simp add: call_events_def focus_call_def samples_of_def)




subsection \<open>Cameras without manual focus\<close>

lemma commands_to_append: "commands_to c (xs @ ys) = commands_to c xs @ commands_to c ys"
  by (simp add: commands_to_def)

lemma commands_to_call_other:
  "c' \<noteq> c \<Longrightarrow> commands_to c (call_events (focus_call c' n pos)) = []"
  by (simp add: commands_to_def call_events_def focus_call_def)

lemma command_focus_commands_other:
  "c' \<noteq> c \<Longrightarrow> commands_to c (out (command_focus c' n pos st)) = commands_to c (out st)"
  by (simp add: out_command_focus_eq commands_to_append commands_to_call_other)

lemma emit_commands_to:
  "commands_to c [e] = [] \<Longrightarrow> commands_to c (out (emit e st)) = commands_to c (out st)"
  by (simp add: emit_def commands_to_append)

lemma scan_positions_commands_other:
  "scan_positions c' n ps pes best st = Some (best', st') \<Longrightarrow> c' \<noteq> c \<Longrightarrow>
   commands_to c (out st') = commands_to c (out st)"
proof (induction ps arbitrary: pes best st)
  case Nil
  then show ?case by simp
next
  case (Cons pos ps)
  show ?case
  proof (cases pes)
    case Nil
    with Cons.prems show ?thesis by simp
  next
    case (Cons pe pes')
    note pes = Cons
    have cf: "commands_to c (out (command_focus c' n pos st)) = commands_to c (out st)"
      using Cons.prems(2) by (rule command_focus_commands_other)
    show ?thesis
    proof (cases "set_raises pe")
      case True
      then have "scan_positions c' n ps pes' best (emit (FocusSetFailed pos) (command_focus c' n pos st))
                 = Some (best', st')"
        using Cons.prems pes by (simp add: Let_def)
      from Cons.IH[OF this Cons.prems(2)] show ?thesis
        using cf by (simp add: emit_def commands_to_def)
    next
      case False
      from Cons.prems False pes obtain r st2 where
        pr: "probe c' (eval_start pe) (eval_ticks pe) (command_focus c' n pos st) = Some (r, st2)"
        by (auto simp: Let_def split: option.splits)
      have o2: "out st2 = out (command_focus c' n pos st)" using out_probe[OF pr] .
      show ?thesis
      proof (cases r)
        case None
        then have "scan_positions c' n ps pes' best st2 = Some (best', st')"
          using Cons.prems pes False pr by (simp add: Let_def)
        from Cons.IH[OF this Cons.prems(2)] show ?thesis using cf o2 by simp
      next
        case (Some v)
        then have "scan_positions c' n ps pes' (better best pos v) (emit (FocusSample pos v) st2)
                   = Some (best', st')"
          using Cons.prems pes False pr by (simp add: Let_def)
        from Cons.IH[OF this Cons.prems(2)] show ?thesis
          using cf o2 by (simp add: emit_def commands_to_def)
      qed
    qed
  qed
qed

lemma scan_cam_commands_other:
  assumes "scan_cam c' n ps e st = Some st'" "c' \<noteq> c"
  shows "commands_to c (out st') = commands_to c (out st)"
proof -
  from assms(1) obtain st1 where
    d: "drain c' (drain_start e) (drain_ticks e) (emit (FocusScanning c') st) = Some st1"
    by (auto simp: scan_cam_def split: option.splits)
  from assms(1) d obtain bv bp st2 where
    sp: "scan_positions c' n ps (probes e) (- 1, None) st1 = Some ((bv, bp), st2)"
    by (auto simp: scan_cam_def split: option.splits)
  have o1: "commands_to c (out st1) = commands_to c (out st)"
    using out_drain[OF d] by (simp add: emit_def commands_to_def)
  have o2: "commands_to c (out st2) = commands_to c (out st)"
    using scan_positions_commands_other[OF sp assms(2)] o1 by simp
  show ?thesis
  proof (cases bp)
    case None
    then have "st' = emit (FocusNoBest c') st2"
      using assms d sp by (simp add: scan_cam_def)
    then show ?thesis using o2 by (simp add: emit_def commands_to_def)
  next
    case (Some p)
    then have "st' = command_focus c' n p (emit (FocusBest c' p bv) st2)"
      using assms d sp by (simp add: scan_cam_def)
    then have "commands_to c (out st') = commands_to c (out (emit (FocusBest c' p bv) st2))"
      using assms(2) by (simp add: command_focus_commands_other)
    also have "\<dots> = commands_to c (out st2)"
      by (simp add: emit_def commands_to_def)
    finally show ?thesis using o2 by simp
  qed
qed

lemma scan_all_commands_unsupported:
  "scan_all nodes ps targets es st = Some st' \<Longrightarrow> map_of nodes c = Some n \<Longrightarrow> \<not> supported n \<Longrightarrow>
   commands_to c (out st') = commands_to c (out st)"
proof (induction targets arbitrary: es st)
  case Nil
  then show ?case by simp
next
  case (Cons t targets)
  from Cons.prems(1) obtain e es' where es: "es = e # es'" by (cases es) auto
  show ?case
  proof (cases "map_of nodes t")
    case None
    then have "scan_all nodes ps targets es' (emit (FocusCamNotFound t) st) = Some st'"
      using Cons.prems(1) es by simp
    from Cons.IH[OF this Cons.prems(2,3)] show ?thesis
      by (simp add: emit_def commands_to_def)
  next
    case (Some m)
    show ?thesis
    proof (cases "supported m")
      case False
      then have "scan_all nodes ps targets es' (emit (FocusUnsupported t) st) = Some st'"
        using Cons.prems(1) es Some by simp
      from Cons.IH[OF this Cons.prems(2,3)] show ?thesis
        by (simp add: emit_def commands_to_def)
    next
      case True
      then have tc: "t \<noteq> c" using Some Cons.prems(2,3) by auto
      from True Some Cons.prems(1) es obtain st1 where
        sc: "scan_cam t m ps e st = Some st1" and
        rest: "scan_all nodes ps targets es' st1 = Some st'"
        by (auto split: option.splits)
      from Cons.IH[OF rest Cons.prems(2,3)] scan_cam_commands_other[OF sc tc]
      show ?thesis by simp
    qed
  qed
qed

lemma scan_positions_out_prefix:
  "scan_positions c n ps pes best st = Some (best', st') \<Longrightarrow> \<exists>new. out st' = out st @ new"
  using scan_positions_out by blast

lemma scan_cam_out_prefix:
  assumes "scan_cam c n ps e st = Some st'" shows "\<exists>new. out st' = out st @ new"
proof -
  from assms obtain st1 where
    d: "drain c (drain_start e) (drain_ticks e) (emit (FocusScanning c) st) = Some st1"
    by (auto simp: scan_cam_def split: option.splits)
  from assms d obtain bv bp st2 where
    sp: "scan_positions c n ps (probes e) (- 1, None) st1 = Some ((bv, bp), st2)"
    by (auto simp: scan_cam_def split: option.splits)
  have o1: "out st1 = out st @ [FocusScanning c]"
    using out_drain[OF d] by (simp add: emit_def)
  from scan_positions_out_prefix[OF sp] obtain mid where mid: "out st2 = out st1 @ mid"
    by blast
  show ?thesis
    using assms d sp o1 mid
    by (cases bp) (auto simp: scan_cam_def emit_def out_command_focus_eq)
qed

lemma scan_all_out_prefix:
  "scan_all nodes ps targets es st = Some st' \<Longrightarrow> \<exists>new. out st' = out st @ new"
proof (induction targets arbitrary: es st)
  case Nil
  then show ?case by simp
next
  case (Cons t targets)
  from Cons.prems(1) obtain e es' where es: "es = e # es'" by (cases es) auto
  show ?case
  proof (cases "map_of nodes t")
    case None
    then have "scan_all nodes ps targets es' (emit (FocusCamNotFound t) st) = Some st'"
      using Cons.prems(1) es by simp
    from Cons.IH[OF this] show ?thesis by (auto simp: emit_def)
  next
    case (Some m)
    show ?thesis
    proof (cases "supported m")
      case False
      then have "scan_all nodes ps targets es' (emit (FocusUnsupported t) st) = Some st'"
        using Cons.prems(1) es Some by simp
      from Cons.IH[OF this] show ?thesis by (auto simp: emit_def)
    next
      case True
      from True Some Cons.prems(1) es obtain st1 where
        sc: "scan_cam t m ps e st = Some st1" and
        rest: "scan_all nodes ps targets es' st1 = Some st'"
        by (auto split: option.splits)
      from Cons.IH[OF rest] scan_cam_out_prefix[OF sc] show ?thesis by auto
    qed
  qed
qed

lemma scan_all_append:
  "length pre \<le> length es \<Longrightarrow>
   scan_all nodes ps (pre @ rest) es st =
     (case scan_all nodes ps pre (take (length pre) es) st of
        None \<Rightarrow> None
      | Some st1 \<Rightarrow> scan_all nodes ps rest (drop (length pre) es) st1)"
proof (induction pre arbitrary: es st)
  case Nil
  then show ?case by simp
next
  case (Cons c pre)
  then obtain e es' where es: "es = e # es'" by (cases es) auto
  with Cons.prems have l: "length pre \<le> length es'" by simp
  show ?case
    using Cons.IH[OF l] by (simp add: es split: option.splits)
qed

text \<open>
  C9. A target camera whose node has none of the three focus methods is passed over: once
  the cameras before it are scanned, the scan prints the report for it and goes on with
  the cameras after it, from a state that differs by that report only. No focus call is
  ever made on that camera, and the report is part of the output of every finished scan.
  The environment list holds an element for the camera (\<open>length pre < length es\<close>).
\<close>

theorem unsupported_camera_skipped:
  assumes "map_of nodes c = Some n" and "\<not> supported n" and "length pre < length es"
  shows "scan_all nodes ps (pre @ c # post) es st =
           (case scan_all nodes ps pre (take (length pre) es) st of
              None \<Rightarrow> None
            | Some st1 \<Rightarrow>
                scan_all nodes ps post (drop (Suc (length pre)) es) (emit (FocusUnsupported c) st1))
         \<and> (\<forall>st'. scan_all nodes ps (pre @ c # post) es st = Some st' \<longrightarrow>
                commands_to c (out st') = commands_to c (out st)
              \<and> FocusUnsupported c \<in> set (out st'))"
proof -
  from assms(3) obtain e es' where d: "drop (length pre) es = e # es'"
    by (cases "drop (length pre) es") auto
  then have d': "drop (Suc (length pre)) es = es'"
    by (metis drop_Suc tl_drop list.sel(3))
  have l: "length pre \<le> length es" using assms(3) by simp
  have eq: "scan_all nodes ps (pre @ c # post) es st =
           (case scan_all nodes ps pre (take (length pre) es) st of
              None \<Rightarrow> None
            | Some st1 \<Rightarrow>
                scan_all nodes ps post (drop (Suc (length pre)) es) (emit (FocusUnsupported c) st1))"
    unfolding scan_all_append[OF l] using assms(1,2) d d' by (simp split: option.splits)
  have rep: "FocusUnsupported c \<in> set (out st')"
    if "scan_all nodes ps (pre @ c # post) es st = Some st'" for st'
  proof -
    from that eq obtain st1 where
      "scan_all nodes ps post es' (emit (FocusUnsupported c) st1) = Some st'"
      using d' by (auto split: option.splits)
    from scan_all_out_prefix[OF this] show ?thesis by (auto simp: emit_def)
  qed
  show ?thesis
    using eq rep scan_all_commands_unsupported[OF _ assms(1,2)] by blast
qed

lemma ex_scan_all_run:
  "map_option out (scan_all ex_nodes [50, 80, 110] [''CAM_B'', ''CAM_A'']
                     [ex_scan_env, ex_scan_env] init_state)
   = Some [FocusUnsupported ''CAM_B'', FocusScanning ''CAM_A'', SetManualFocus ''CAM_A'' 50,
      FocusSample 50 10, SetManualFocus ''CAM_A'' 80, FocusSample 80 35,
      SetManualFocus ''CAM_A'' 110, FocusSample 110 22, FocusBest ''CAM_A'' 80 35,
      SetManualFocus ''CAM_A'' 80]"
  by (simp add: scan_cam_def ex_nodes_def ex_fixed_def supported_def ex_node_def ex_frame_def
      ex_probe_def ex_scan_env_def init_state_def
      empty_queue_def emit_def deliver_def arrive_def q_poll_def take_from_def command_focus_def
      focus_call_def better_def Let_def)

theorem unsupported_camera_skipped_witness:
  "map_of ex_nodes ''CAM_B'' = Some ex_fixed \<and> \<not> supported ex_fixed
   \<and> (\<exists>st'. scan_all ex_nodes [50, 80, 110] ([] @ ''CAM_B'' # [''CAM_A''])
                 [ex_scan_env, ex_scan_env] init_state = Some st'
          \<and> scan_all ex_nodes [50, 80, 110] [''CAM_A''] [ex_scan_env]
                 (emit (FocusUnsupported ''CAM_B'') init_state) = Some st'
          \<and> commands_to ''CAM_B'' (out st') = []
          \<and> FocusUnsupported ''CAM_B'' \<in> set (out st')
          \<and> commands_to ''CAM_A'' (out st')
              = [SetManualFocus ''CAM_A'' 50, SetManualFocus ''CAM_A'' 80,
                 SetManualFocus ''CAM_A'' 110, SetManualFocus ''CAM_A'' 80])"
proof -
  have a: "map_of ex_nodes ''CAM_B'' = Some ex_fixed" by (simp add: ex_nodes_def)
  have b: "\<not> supported ex_fixed" by (simp add: supported_def ex_fixed_def)
  have l: "length ([] :: cam list) < length [ex_scan_env, ex_scan_env]" by simp
  note t = unsupported_camera_skipped[OF a b l, of "[50, 80, 110]" "[''CAM_A'']" init_state]
  from ex_scan_all_run obtain st' where
    r: "scan_all ex_nodes [50, 80, 110] ([] @ ''CAM_B'' # [''CAM_A''])
          [ex_scan_env, ex_scan_env] init_state = Some st'"
    and o: "out st' = [FocusUnsupported ''CAM_B'', FocusScanning ''CAM_A'',
      SetManualFocus ''CAM_A'' 50, FocusSample 50 10, SetManualFocus ''CAM_A'' 80,
      FocusSample 80 35, SetManualFocus ''CAM_A'' 110, FocusSample 110 22,
      FocusBest ''CAM_A'' 80 35, SetManualFocus ''CAM_A'' 80]"
    by auto
  from t r have c1: "scan_all ex_nodes [50, 80, 110] [''CAM_A''] [ex_scan_env]
                 (emit (FocusUnsupported ''CAM_B'') init_state) = Some st'"
    by simp
  from t r have c2: "commands_to ''CAM_B'' (out st') = commands_to ''CAM_B'' (out init_state)"
    and c3: "FocusUnsupported ''CAM_B'' \<in> set (out st')"
    by blast+
  have c4: "commands_to ''CAM_A'' (out st')
              = [SetManualFocus ''CAM_A'' 50, SetManualFocus ''CAM_A'' 80,
                 SetManualFocus ''CAM_A'' 110, SetManualFocus ''CAM_A'' 80]"
    unfolding o by (simp add: commands_to_def)
  have "commands_to ''CAM_B'' (out init_state) = []"
    by (simp add: init_state_def commands_to_def)
  with a b r c1 c2 c3 c4 show ?thesis by auto
qed

subsection \<open>Fields that the stages leave alone\<close>

lemma frames_emit [simp]: "frames (emit e st) = frames st"
  and queues_emit [simp]: "queues (emit e st) = queues st"
  and warmup_emit [simp]: "warmup_counter (emit e st) = warmup_counter st"
  and per_cam_emit [simp]: "per_cam_frames (emit e st) = per_cam_frames st"
  and count_emit [simp]: "capture_count (emit e st) = capture_count st"
  and out_emit [simp]: "out (emit e st) = out st @ [e]"
  by (simp_all add: emit_def)

lemma arrive_fields [simp]:
  "frames (arrive a st) = frames st"
  "warmup_counter (arrive a st) = warmup_counter st"
  "per_cam_frames (arrive a st) = per_cam_frames st"
  "capture_count (arrive a st) = capture_count st"
  by (simp_all add: arrive_def Let_def)

lemma deliver_fields [simp]:
  "frames (deliver as st) = frames st"
  "warmup_counter (deliver as st) = warmup_counter st"
  "per_cam_frames (deliver as st) = per_cam_frames st"
  "capture_count (deliver as st) = capture_count st"
  unfolding deliver_def by (induction as arbitrary: st) auto

lemma refresh_cam_fields [simp]:
  "out (refresh_cam c st) = out st"
  "warmup_counter (refresh_cam c st) = warmup_counter st"
  "per_cam_frames (refresh_cam c st) = per_cam_frames st"
  "capture_count (refresh_cam c st) = capture_count st"
  by (simp_all add: refresh_cam_def split: option.splits)

lemma refresh_fields [simp]:
  "out (refresh cams st) = out st"
  "warmup_counter (refresh cams st) = warmup_counter st"
  "per_cam_frames (refresh cams st) = per_cam_frames st"
  "capture_count (refresh cams st) = capture_count st"
  unfolding refresh_def by (induction cams arbitrary: st) auto

declare brightness_loop.simps [simp del] sharpness_loop.simps [simp del]

lemma dark_retries_simps [simp]:
  "dark_retries [] = 0"
  "dark_retries (DarkRetry d w a r # evs) = Suc (dark_retries evs)"
  "dark_retries [StillDark r d] = 0"
  by (simp_all add: dark_retries_def)



lemma brightness_loop_fields:
  "warmup_counter (brightness_loop cfg cams mb ws attempt st) = warmup_counter st
   \<and> per_cam_frames (brightness_loop cfg cams mb ws attempt st) = per_cam_frames st
   \<and> capture_count (brightness_loop cfg cams mb ws attempt st) = capture_count st"
proof (induction cfg cams mb ws attempt st rule: brightness_loop.induct)
  case (1 cfg cams mb ws attempt st)
  show ?case
    using "1.IH" by (subst (1 2 3) brightness_loop.simps) (auto simp: Let_def)
qed

lemma sharpness_loop_fields:
  "warmup_counter (sharpness_loop cfg cams ms ws k st) = warmup_counter st
   \<and> per_cam_frames (sharpness_loop cfg cams ms ws k st) = per_cam_frames st
   \<and> capture_count (sharpness_loop cfg cams ms ws k st) = capture_count st"
proof (induction cfg cams ms ws k st rule: sharpness_loop.induct)
  case (1 cfg cams ms ws k st)
  show ?case
    using "1.IH" by (subst (1 2 3) sharpness_loop.simps) (auto simp: Let_def)
qed

lemma quality_gates_fields [simp]:
  "warmup_counter (quality_gates cfg cams env st) = warmup_counter st"
  "per_cam_frames (quality_gates cfg cams env st) = per_cam_frames st"
  "capture_count (quality_gates cfg cams env st) = capture_count st"
  by (simp_all add: quality_gates_def brightness_stage_def sharpness_stage_def
      brightness_loop_fields sharpness_loop_fields split: option.splits)

lemma save_batch_fold:
  "foldl (\<lambda>s (sock, h). emit (Imwrite sock ts h) s) st fs
   = st\<lparr>out := out st @ map (\<lambda>(sock, h). Imwrite sock ts h) fs\<rparr>"
  by (induction fs arbitrary: st) (auto simp: emit_def)

lemma save_batch_eq:
  "save_batch ts st = st\<lparr>capture_count := capture_count st + 1,
     out := out st @ SavingBatch (capture_count st + 1) # map (\<lambda>(sock, h). Imwrite sock ts h) (frames st)\<rparr>"
  unfolding save_batch_def Let_def save_batch_fold by (simp add: emit_def)

lemma lacking_cong:
  "per_cam_frames st' = per_cam_frames st \<Longrightarrow> lacking cfg cams st' = lacking cfg cams st"
  by (simp add: lacking_def)

lemma evaluate_saves:
  assumes "\<not> (\<not> headless cfg \<and> quit_key (key_pressed env))"
    and "do_capture cfg env st" and "frames st \<noteq> []" and "lacking cfg cams st = []"
  shows "capture_count (state_of (evaluate cfg cams env st)) = capture_count st + 1"
proof -
  let ?st1 = "if auto_due cfg env st then st\<lparr>last_auto_capture := now env\<rparr> else st"
  have l: "lacking cfg cams ?st1 = []" using assms(4) by (simp add: lacking_def)
  have c: "capture_count ?st1 = capture_count st" by simp
  let ?st4 = "save_batch (timestamp env) (quality_gates cfg cams env ?st1)"
  have e: "evaluate cfg cams env st = (if one_shot cfg then Leave (emit OneShotDone ?st4) else Go ?st4)"
  proof -
    have nq: "(\<not> headless cfg \<and> quit_key (key_pressed env)) = False" using assms(1) by simp
    have dc: "(do_capture cfg env st \<and> frames st \<noteq> []) = True" using assms(2,3) by simp
    have ll: "(lacking cfg cams ?st1 \<noteq> []) = False" using l by simp
    show ?thesis
      unfolding evaluate_def Let_def nq dc ll if_False if_True ..
  qed
  have "capture_count ?st4 = capture_count st + 1"
    unfolding save_batch_eq using c by simp
  then show ?thesis unfolding e by simp
qed

subsection \<open>The minimum of frames per camera\<close>

lemma writes_append [simp]: "writes (xs @ ys) = writes xs @ writes ys"
  by (simp add: writes_def)

lemma writes_Nil [simp]: "writes [] = []"
  by (simp add: writes_def)

lemma writes_Cons: "writes (e # es) = writes [e] @ writes es"
  by (simp add: writes_def)

lemma writes_single:
  "writes [e] = (case e of Imwrite c ts h \<Rightarrow> [(c, h)] | _ \<Rightarrow> [])"
  by (simp add: writes_def)

lemma poll_cam_fields [simp]:
  "out (poll_cam cfg c st) = out st"
  "capture_count (poll_cam cfg c st) = capture_count st"
  by (simp_all add: poll_cam_def Let_def split: option.splits)

lemma poll_cam_mono: "per_cam_frames st x \<le> per_cam_frames (poll_cam cfg c st) x"
  by (simp add: poll_cam_def Let_def split: option.splits)

lemma poll_pass_fields [simp]:
  "out (poll_pass cfg cams st) = out st"
  "capture_count (poll_pass cfg cams st) = capture_count st"
  unfolding poll_pass_def by (induction cams arbitrary: st) auto

lemma poll_pass_mono: "per_cam_frames st x \<le> per_cam_frames (poll_pass cfg cams st) x"
  unfolding poll_pass_def
proof (induction cams arbitrary: st)
  case Nil
  then show ?case by simp
next
  case (Cons c cams)
  have "per_cam_frames st x \<le> per_cam_frames (poll_cam cfg c st) x" by (rule poll_cam_mono)
  also have "\<dots> \<le> per_cam_frames (foldl (\<lambda>s name. poll_cam cfg name s) (poll_cam cfg c st) cams) x"
    by (rule Cons.IH)
  finally show ?case by simp
qed

lemma collect_unfold:
  "collect cfg cams start (tk # tks) st =
     (if \<not> wait_all cfg then Some (Go (poll_pass cfg cams (deliver (arrivals tk) st)))
      else if have_all cams (poll_pass cfg cams (deliver (arrivals tk) st)) \<or> timed_out cfg start tk
      then Some (Go (if timed_out cfg start tk \<and> \<not> have_all cams (poll_pass cfg cams (deliver (arrivals tk) st)) \<and> one_shot cfg
                     then emit (TimeoutWarning (map fst (frames (poll_pass cfg cams (deliver (arrivals tk) st)))))
                            (poll_pass cfg cams (deliver (arrivals tk) st))
                     else poll_pass cfg cams (deliver (arrivals tk) st)))
      else if \<not> headless cfg \<and> quit_key (key tk)
      then Some (Leave (emit QuitMsg (poll_pass cfg cams (deliver (arrivals tk) st))))
      else collect cfg cams start tks (poll_pass cfg cams (deliver (arrivals tk) st)))"
  unfolding collect.simps Let_def ..

lemma collect_keeps:
  "collect cfg cams start tks st = Some oc \<Longrightarrow>
   writes (out (state_of oc)) = writes (out st)
   \<and> capture_count (state_of oc) = capture_count st
   \<and> per_cam_frames st x \<le> per_cam_frames (state_of oc) x"
proof (induction tks arbitrary: st)
  case Nil
  then show ?case by simp
next
  case (Cons tk tks)
  let ?st1 = "poll_pass cfg cams (deliver (arrivals tk) st)"
  have m: "per_cam_frames st x \<le> per_cam_frames ?st1 x"
    using poll_pass_mono[of "deliver (arrivals tk) st" x cfg cams] by simp
  have k: "writes (out ?st1) = writes (out st)" "capture_count ?st1 = capture_count st"
    by simp_all
  note p = Cons.prems[unfolded collect_unfold]
  show ?case
  proof (cases "wait_all cfg")
    case False
    with p have "oc = Go ?st1" by simp
    then show ?thesis using m k by simp
  next
    case w: True
    show ?thesis
    proof (cases "have_all cams ?st1 \<or> timed_out cfg start tk")
      case True
      show ?thesis
      proof (cases "timed_out cfg start tk \<and> \<not> have_all cams ?st1 \<and> one_shot cfg")
        case True
        with p w have "oc = Go (emit (TimeoutWarning (map fst (frames ?st1))) ?st1)" by auto
        then show ?thesis using m k by (simp add: writes_single)
      next
        case False
        with p w True have "oc = Go ?st1" by auto
        then show ?thesis using m k by simp
      qed
    next
      case h: False
      show ?thesis
      proof (cases "\<not> headless cfg \<and> quit_key (key tk)")
        case True
        with p w h have "oc = Leave (emit QuitMsg ?st1)" by auto
        then show ?thesis using m k by (simp add: writes_single)
      next
        case False
        with p w h have "collect cfg cams start tks ?st1 = Some oc" by auto
        from Cons.IH[OF this] m k show ?thesis by auto
      qed
    qed
  qed
qed

lemma evaluate_postpones:
  assumes "lacking cfg cams st \<noteq> []"
  shows "\<exists>st1. out st1 = out st \<and> frames st1 = frames st \<and> capture_count st1 = capture_count st
           \<and> per_cam_frames st1 = per_cam_frames st \<and> warmup_counter st1 = warmup_counter st
           \<and> queues st1 = queues st
           \<and> evaluate cfg cams env st =
               (if \<not> headless cfg \<and> quit_key (key_pressed env) then Leave (emit QuitMsg st1)
                else if do_capture cfg env st \<and> frames st \<noteq> []
                then Go (emit (Postponed (lacking cfg cams st)) st1)
                else Go st1)"
proof -
  let ?st1 = "if auto_due cfg env st then st\<lparr>last_auto_capture := now env\<rparr> else st"
  have l: "lacking cfg cams ?st1 = lacking cfg cams st" by (simp add: lacking_def)
  have "evaluate cfg cams env st =
               (if \<not> headless cfg \<and> quit_key (key_pressed env) then Leave (emit QuitMsg ?st1)
                else if do_capture cfg env st \<and> frames st \<noteq> []
                then Go (emit (Postponed (lacking cfg cams st)) ?st1)
                else Go ?st1)"
    unfolding evaluate_def Let_def l using assms by simp
  then show ?thesis by (intro exI[of _ ?st1]) simp
qed

lemma evaluate_keeps_counts:
  "per_cam_frames (state_of (evaluate cfg cams env st)) = per_cam_frames st"
  by (simp add: evaluate_def Let_def save_batch_eq)

lemma cycle_lacking:
  assumes "cycle cfg cams env st = Some oc" and "lacking cfg cams (state_of oc) \<noteq> []"
  shows "writes (out (state_of oc)) = writes (out st) \<and> capture_count (state_of oc) = capture_count st"
proof -
  from assms(1) obtain oc1 where
    c: "collect cfg cams (start_wait_cycle env) (passes env) (st\<lparr>frames := []\<rparr>) = Some oc1"
    by (auto simp: cycle_def split: option.splits)
  have k: "writes (out (state_of oc1)) = writes (out st)" "capture_count (state_of oc1) = capture_count st"
    using collect_keeps[OF c] by simp_all
  show ?thesis
  proof (cases oc1)
    case (Leave s)
    then have "oc = Leave s" using assms(1) c by (simp add: cycle_def)
    then show ?thesis using k Leave by simp
  next
    case (Go s)
    then have oc: "oc = evaluate cfg cams env s" using assms(1) c by (simp add: cycle_def)
    have "lacking cfg cams s \<noteq> []"
      using assms(2) unfolding oc lacking_def evaluate_keeps_counts .
    from evaluate_postpones[OF this, of env] obtain st1 where
      s1: "out st1 = out s" "capture_count st1 = capture_count s"
      "evaluate cfg cams env s =
               (if \<not> headless cfg \<and> quit_key (key_pressed env) then Leave (emit QuitMsg st1)
                else if do_capture cfg env s \<and> frames s \<noteq> []
                then Go (emit (Postponed (lacking cfg cams s)) st1)
                else Go st1)"
      by blast
    show ?thesis
      unfolding oc s1(3) using s1(1,2) k Go by (simp add: writes_single)
  qed
qed

lemma cycle_mono:
  assumes "cycle cfg cams env st = Some oc"
  shows "per_cam_frames st x \<le> per_cam_frames (state_of oc) x"
proof -
  from assms(1) obtain oc1 where
    c: "collect cfg cams (start_wait_cycle env) (passes env) (st\<lparr>frames := []\<rparr>) = Some oc1"
    by (auto simp: cycle_def split: option.splits)
  have m: "per_cam_frames st x \<le> per_cam_frames (state_of oc1) x"
    using collect_keeps[OF c, of x] by simp
  show ?thesis
  proof (cases oc1)
    case (Leave s)
    then have "oc = Leave s" using assms(1) c by (simp add: cycle_def)
    then show ?thesis using m Leave by simp
  next
    case (Go s)
    then have oc: "oc = evaluate cfg cams env s" using assms(1) c by (simp add: cycle_def)
    show ?thesis unfolding oc evaluate_keeps_counts using m Go by simp
  qed
qed

lemma run_mono:
  "run cfg cams envs st = Some st' \<Longrightarrow> per_cam_frames st x \<le> per_cam_frames st' x"
proof (induction envs arbitrary: st)
  case Nil
  then show ?case by simp
next
  case (Cons env envs)
  from Cons.prems obtain oc where c: "cycle cfg cams env st = Some oc"
    by (auto split: option.splits)
  show ?case
  proof (cases oc)
    case (Leave s)
    then show ?thesis using Cons.prems c cycle_mono[OF c, of x] by simp
  next
    case (Go s)
    then have "run cfg cams envs s = Some st'" using Cons.prems c by simp
    from Cons.IH[OF this] cycle_mono[OF c, of x] Go show ?thesis by simp
  qed
qed

lemma lacking_mono:
  assumes "\<And>x. per_cam_frames st x \<le> per_cam_frames st' x" and "lacking cfg cams st' \<noteq> []"
  shows "lacking cfg cams st \<noteq> []"
proof -
  from assms(2) obtain c where "c \<in> set cams" "per_cam_frames st' c < min_frames_each cfg"
    by (auto simp: lacking_def filter_empty_conv)
  with assms(1)[of c] have "c \<in> set cams \<and> per_cam_frames st c < min_frames_each cfg"
    by simp
  then show ?thesis unfolding lacking_def filter_empty_conv by blast
qed

lemma run_lacking:
  "run cfg cams envs st = Some st' \<Longrightarrow> lacking cfg cams st' \<noteq> [] \<Longrightarrow>
   writes (out st') = writes (out st) \<and> capture_count st' = capture_count st"
proof (induction envs arbitrary: st)
  case Nil
  then show ?case by simp
next
  case (Cons env envs)
  from Cons.prems obtain oc where c: "cycle cfg cams env st = Some oc"
    by (auto split: option.splits)
  show ?case
  proof (cases oc)
    case (Leave s)
    then have "st' = s" using Cons.prems c by simp
    then show ?thesis using cycle_lacking[OF c] Cons.prems(2) Leave by simp
  next
    case (Go s)
    then have r: "run cfg cams envs s = Some st'" using Cons.prems c by simp
    have "lacking cfg cams s \<noteq> []"
      using lacking_mono[OF run_mono[OF r] Cons.prems(2)] .
    then have "writes (out s) = writes (out st) \<and> capture_count s = capture_count st"
      using cycle_lacking[OF c] Go by simp
    with Cons.IH[OF r Cons.prems(2)] show ?thesis by simp
  qed
qed

text \<open>
  C7. While some camera has fewer frames past warm-up than \<open>min_frames_each\<close>, no batch
  is saved. If at the end of a run some camera is still below the minimum, the run wrote
  no file and counted no batch, from its first turn on (the counters never decrease). And
  in a turn whose capture is triggered while a camera is below the minimum, the capture
  is postponed: the turn prints the cameras that lack frames, writes nothing and goes
  back to the loop.
\<close>

theorem no_batch_below_min_frames:
  "(run cfg cams envs st = Some st' \<and> lacking cfg cams st' \<noteq> [] \<longrightarrow>
      writes (out st') = writes (out st) \<and> capture_count st' = capture_count st)
   \<and> (lacking cfg cams st \<noteq> [] \<and> do_capture cfg env st \<and> frames st \<noteq> []
        \<and> \<not> (\<not> headless cfg \<and> quit_key (key_pressed env)) \<longrightarrow>
      (\<exists>st1. evaluate cfg cams env st = Go (emit (Postponed (lacking cfg cams st)) st1)
         \<and> out st1 = out st \<and> capture_count st1 = capture_count st))"
proof -
  have "\<exists>st1. evaluate cfg cams env st = Go (emit (Postponed (lacking cfg cams st)) st1)
         \<and> out st1 = out st \<and> capture_count st1 = capture_count st"
    if "lacking cfg cams st \<noteq> []" "do_capture cfg env st" "frames st \<noteq> []"
      "\<not> (\<not> headless cfg \<and> quit_key (key_pressed env))"
  proof -
    from evaluate_postpones[OF that(1), of env] obtain st1 where
      s1: "out st1 = out st" "capture_count st1 = capture_count st"
      "evaluate cfg cams env st =
               (if \<not> headless cfg \<and> quit_key (key_pressed env) then Leave (emit QuitMsg st1)
                else if do_capture cfg env st \<and> frames st \<noteq> []
                then Go (emit (Postponed (lacking cfg cams st)) st1)
                else Go st1)"
      by blast
    have "evaluate cfg cams env st = Go (emit (Postponed (lacking cfg cams st)) st1)"
      unfolding s1(3) using that(2,3,4) by simp
    with s1(1,2) show ?thesis by blast
  qed
  then show ?thesis using run_lacking by blast
qed

lemmas ex_simps = ex_cycle_def ex_three_A_def ex_env_def ex_cfg_def ex_frame_def init_state_def
  empty_queue_def cycle_def poll_pass_def poll_cam_def deliver_def arrive_def q_poll_def
  evaluate_def do_capture_def auto_due_def lacking_def emit_def have_all_def timed_out_def
  quit_key_def capture_key_def Let_def

lemma ex_three_A_run:
  "map_option (\<lambda>s. (out s, per_cam_frames s ''CAM_A'', per_cam_frames s ''CAM_B'', frames s,
                     capture_count s))
     (run ex_cfg [''CAM_A'', ''CAM_B''] ex_three_A init_state)
   = Some ([Postponed [''CAM_B''] ], 1, 0, [(''CAM_A'', (3, ex_frame 100 50))], 0)"
  by (simp add: ex_simps)

theorem no_batch_below_min_frames_witness:
  "(\<exists>st'. run ex_cfg [''CAM_A'', ''CAM_B''] ex_three_A init_state = Some st'
      \<and> lacking ex_cfg [''CAM_A'', ''CAM_B''] st' = [''CAM_B'']
      \<and> writes (out st') = [] \<and> capture_count st' = 0)
   \<and> lacking ex_cfg [''CAM_A'', ''CAM_B''] ex_waiting_B = [''CAM_B'']
   \<and> do_capture ex_cfg ex_env ex_waiting_B \<and> frames ex_waiting_B \<noteq> []
   \<and> (\<exists>st1. evaluate ex_cfg [''CAM_A'', ''CAM_B''] ex_env ex_waiting_B
               = Go (emit (Postponed [''CAM_B'']) st1)
        \<and> out st1 = [] \<and> capture_count st1 = 0)"
proof -
  from ex_three_A_run obtain st' where
    r: "run ex_cfg [''CAM_A'', ''CAM_B''] ex_three_A init_state = Some st'"
    and p: "per_cam_frames st' ''CAM_A'' = 1" "per_cam_frames st' ''CAM_B'' = 0"
    by auto
  have l: "lacking ex_cfg [''CAM_A'', ''CAM_B''] st' = [''CAM_B'']"
    using p by (simp add: lacking_def ex_cfg_def)
  note t = no_batch_below_min_frames[where cfg = ex_cfg and cams = "[''CAM_A'', ''CAM_B'']"
      and envs = ex_three_A and st = init_state and st' = st']
  note t2 = no_batch_below_min_frames[where cfg = ex_cfg and cams = "[''CAM_A'', ''CAM_B'']"
      and st = ex_waiting_B and env = ex_env]
  have a: "writes (out st') = [] \<and> capture_count st' = 0"
    using t r l by (simp add: init_state_def)
  have l2: "lacking ex_cfg [''CAM_A'', ''CAM_B''] ex_waiting_B = [''CAM_B'']"
    by (simp add: lacking_def ex_cfg_def ex_waiting_B_def)
  have d: "do_capture ex_cfg ex_env ex_waiting_B"
    by (simp add: do_capture_def ex_cfg_def ex_waiting_B_def ex_held_state_def init_state_def)
  have f: "frames ex_waiting_B \<noteq> []"
    by (simp add: ex_waiting_B_def ex_held_state_def)
  have h: "\<not> (\<not> headless ex_cfg \<and> quit_key (key_pressed ex_env))"
    by (simp add: ex_cfg_def)
  have o: "out ex_waiting_B = []" "capture_count ex_waiting_B = 0"
    by (simp_all add: ex_waiting_B_def ex_held_state_def init_state_def)
  from t2 l2 d f h have "\<exists>st1. evaluate ex_cfg [''CAM_A'', ''CAM_B''] ex_env ex_waiting_B
               = Go (emit (Postponed [''CAM_B'']) st1)
        \<and> out st1 = [] \<and> capture_count st1 = 0"
    unfolding o by simp
  with r l a l2 d f show ?thesis by blast
qed

subsection \<open>A batch of one camera\<close>






subsection \<open>The retry passes at concrete inputs\<close>

lemmas gate_simps = brightness_stage_def sharpness_stage_def brightness_loop.simps
  sharpness_loop.simps too_dark_def sharp_values_def avg_sharp_def py_take_def first_wait_def
  refresh_def refresh_cam_def q_poll_def deliver_def arrive_def emit_def Let_def

text \<open>
  C3. A dark frame on camera A and a bright one on camera B, threshold 40: only A fails
  the check, yet the retry pass takes the new frame of each queue that has one, and the
  held frame of B (ordinal 3, mean 100) is replaced by the frame that arrived during the
  wait (ordinal 4, mean 120).
\<close>

theorem brightness_retry_replaces_bright_frame:
  "frames (brightness_stage ex_dark_cfg [''CAM_A'', ''CAM_B'']
             [ [(''CAM_A'', ex_frame 90 50), (''CAM_B'', ex_frame 120 50)] ] ex_two_held)
   = [(''CAM_A'', (4, ex_frame 90 50)), (''CAM_B'', (4, ex_frame 120 50))]
   \<and> too_dark 40 (frames ex_two_held) = [(''CAM_A'', 10)]
   \<and> out (brightness_stage ex_dark_cfg [''CAM_A'', ''CAM_B'']
             [ [(''CAM_A'', ex_frame 90 50), (''CAM_B'', ex_frame 120 50)] ] ex_two_held)
     = [DarkRetry [(''CAM_A'', 10)] (1 / 2) 1 2]"
  by (simp add: gate_simps ex_dark_cfg_def ex_cfg_def ex_two_held_def ex_frame_def init_state_def)

text \<open>
  C5. Threshold 100, one camera whose frames have variance 10. The stage prints the
  retry line three times and re-polls three times; the frame taken by the third re-poll
  is saved without being measured, and nothing is printed between the third retry line
  and the saving of the batch. The output is the same when that last frame has variance
  500, except for the frame written.
\<close>

theorem sharpness_exhausted_without_report:
  "out (state_of (evaluate ex_blur_cfg [''CAM_A'']
          (ex_env\<lparr>sharp_waits := [ [(''CAM_A'', ex_frame 100 10)], [(''CAM_A'', ex_frame 100 10)],
                                   [(''CAM_A'', ex_frame 100 10)] ]\<rparr>)
          (ex_held_state (ex_frame 100 10))))
   = [SharpRetry 10 100, SharpRetry 10 100, SharpRetry 10 100, SavingBatch 1,
      Imwrite ''CAM_A'' ''20240101_120000'' (6, ex_frame 100 10), OneShotDone]
   \<and> out (state_of (evaluate ex_blur_cfg [''CAM_A'']
          (ex_env\<lparr>sharp_waits := [ [(''CAM_A'', ex_frame 100 10)], [(''CAM_A'', ex_frame 100 10)],
                                   [(''CAM_A'', ex_frame 100 500)] ]\<rparr>)
          (ex_held_state (ex_frame 100 10))))
   = [SharpRetry 10 100, SharpRetry 10 100, SharpRetry 10 100, SavingBatch 1,
      Imwrite ''CAM_A'' ''20240101_120000'' (6, ex_frame 100 500), OneShotDone]"
  by (simp add: gate_simps evaluate_def quality_gates_def do_capture_def auto_due_def lacking_def
      save_batch_eq quit_key_def ex_blur_cfg_def ex_cfg_def ex_env_def ex_held_state_def
      ex_frame_def init_state_def)

subsection \<open>Waiting for all cameras\<close>

lemma dict_set_keys:
  "map fst (dict_set k v d) = (if k \<in> fst ` set d then map fst d else map fst d @ [k])"
  by (induction d) force+

lemma poll_cam_keys_ok:
  assumes "keys_ok cams st" and "c \<in> set cams"
  shows "keys_ok cams (poll_cam cfg c st)"
proof (cases "c \<in> fst ` set (frames st)")
  case True
  then show ?thesis using assms(1) by (simp add: poll_cam_def)
next
  case False
  have "distinct (map fst (dict_set c h (frames st)))
        \<and> fst ` set (dict_set c h (frames st)) \<subseteq> set cams" for h
  proof -
    have m: "map fst (dict_set c h (frames st)) = map fst (frames st) @ [c]"
      using False by (simp add: dict_set_keys)
    have "set (map fst (dict_set c h (frames st))) \<subseteq> set cams"
      unfolding m using assms by (auto simp: keys_ok_def)
    moreover have "distinct (map fst (dict_set c h (frames st)))"
      unfolding m using assms(1) False by (simp add: keys_ok_def)
    ultimately show ?thesis by simp
  qed
  then show ?thesis
    using assms(1) False
    by (auto simp: poll_cam_def keys_ok_def Let_def split: option.splits simp del: set_map)
qed

lemma poll_pass_keys_ok_aux:
  "keys_ok cams st \<Longrightarrow> set cs \<subseteq> set cams \<Longrightarrow>
   keys_ok cams (foldl (\<lambda>s name. poll_cam cfg name s) st cs)"
  by (induction cs arbitrary: st) (auto simp: poll_cam_keys_ok)

lemma poll_pass_keys_ok: "keys_ok cams st \<Longrightarrow> keys_ok cams (poll_pass cfg cams st)"
  unfolding poll_pass_def by (rule poll_pass_keys_ok_aux) auto

lemma deliver_keys_ok [simp]: "keys_ok cams (deliver as st) = keys_ok cams st"
  by (simp add: keys_ok_def)

lemma after_passes_keys_ok:
  "keys_ok cams st \<Longrightarrow> keys_ok cams (after_passes cfg cams st tks)"
  by (induction tks arbitrary: st) (auto simp: poll_pass_keys_ok)

lemma have_all_iff:
  assumes "keys_ok cams st" and "distinct cams"
  shows "have_all cams st = all_held cams st"
proof
  assume "have_all cams st"
  then have l: "length (map fst (frames st)) = length cams" by (simp add: have_all_def)
  have "card (set (map fst (frames st))) = card (set cams)"
    using l assms by (simp add: keys_ok_def distinct_card del: set_map)
  moreover have "set (map fst (frames st)) \<subseteq> set cams" using assms(1) by (simp add: keys_ok_def)
  ultimately have "set (map fst (frames st)) = set cams"
    by (simp add: card_subset_eq del: set_map)
  then show "all_held cams st" by (auto simp: all_held_def)
next
  assume "all_held cams st"
  then have "set cams \<subseteq> set (map fst (frames st))" by (auto simp: all_held_def)
  with assms(1) have "set (map fst (frames st)) = set cams" by (auto simp: keys_ok_def)
  then have "card (set (map fst (frames st))) = card (set cams)" by simp
  then have "length (map fst (frames st)) = length cams"
    using assms by (simp add: keys_ok_def distinct_card del: set_map)
  then show "have_all cams st" by (simp add: have_all_def)
qed


lemma proceeds_at_0:
  "proceeds_at cfg cams start st (tk # tks) 0 =
     (all_held cams (poll_pass cfg cams (deliver (arrivals tk) st))
      \<or> wait_timeout cfg \<le> clock tk - start)"
  by (simp add: proceeds_at_def)

lemma proceeds_at_Suc:
  "proceeds_at cfg cams start st (tk # tks) (Suc k) =
     proceeds_at cfg cams start (poll_pass cfg cams (deliver (arrivals tk) st)) tks k"
  by (simp add: proceeds_at_def)

lemma leaving_state_0:
  "leaving_state cfg cams start st (tk # tks) 0 =
     (let s = poll_pass cfg cams (deliver (arrivals tk) st)
      in if wait_timeout cfg \<le> clock tk - start \<and> \<not> all_held cams s \<and> one_shot cfg
         then emit (TimeoutWarning (map fst (frames s))) s else s)"
  by (simp add: leaving_state_def)

lemma leaving_state_Suc:
  "leaving_state cfg cams start st (tk # tks) (Suc k) =
     leaving_state cfg cams start (poll_pass cfg cams (deliver (arrivals tk) st)) tks k"
  by (simp add: leaving_state_def)

lemma collect_wait_all:
  assumes "wait_all cfg" and "distinct cams"
  shows "keys_ok cams st \<Longrightarrow> headless cfg \<or> (\<forall>tk \<in> set tks. \<not> quit_key (key tk)) \<Longrightarrow>
     (case collect cfg cams start tks st of
        None \<Rightarrow> \<forall>k < length tks. \<not> proceeds_at cfg cams start st tks k
      | Some oc \<Rightarrow> \<exists>k < length tks. proceeds_at cfg cams start st tks k
            \<and> (\<forall>j < k. \<not> proceeds_at cfg cams start st tks j)
            \<and> oc = Go (leaving_state cfg cams start st tks k))"
proof (induction tks arbitrary: st)
  case Nil
  then show ?case by simp
next
  case (Cons tk tks)
  let ?st1 = "poll_pass cfg cams (deliver (arrivals tk) st)"
  have k1: "keys_ok cams ?st1" using Cons.prems(1) by (simp add: poll_pass_keys_ok)
  have ha: "have_all cams ?st1 = all_held cams ?st1" using have_all_iff[OF k1 assms(2)] .
  have to: "timed_out cfg start tk = (wait_timeout cfg \<le> clock tk - start)"
    by (simp add: timed_out_def)
  have nq: "(\<not> headless cfg \<and> quit_key (key tk)) = False" using Cons.prems(2) by auto
  have nq': "headless cfg \<or> (\<forall>tk \<in> set tks. \<not> quit_key (key tk))" using Cons.prems(2) by auto
  show ?case
  proof (cases "all_held cams ?st1 \<or> wait_timeout cfg \<le> clock tk - start")
    case True
    have c: "collect cfg cams start (tk # tks) st = Some (Go (leaving_state cfg cams start st (tk # tks) 0))"
      unfolding collect_unfold leaving_state_0 Let_def ha to using assms(1) True by simp
    have "proceeds_at cfg cams start st (tk # tks) 0" unfolding proceeds_at_0 using True .
    then show ?thesis unfolding c by auto
  next
    case False
    have c: "collect cfg cams start (tk # tks) st = collect cfg cams start tks ?st1"
      unfolding collect_unfold ha to nq using assms(1) False by simp
    have p0: "\<not> proceeds_at cfg cams start st (tk # tks) 0" unfolding proceeds_at_0 using False .
    note IH = Cons.IH[OF k1 nq']
    show ?thesis
    proof (cases "collect cfg cams start tks ?st1")
      case None
      with IH have n: "\<forall>k < length tks. \<not> proceeds_at cfg cams start ?st1 tks k" by simp
      have "\<not> proceeds_at cfg cams start st (tk # tks) k" if "k < length (tk # tks)" for k
        using that p0 n by (cases k) (auto simp: proceeds_at_Suc)
      then show ?thesis unfolding c None by simp
    next
      case (Some oc)
      with IH obtain k where k: "k < length tks" "proceeds_at cfg cams start ?st1 tks k"
        "\<forall>j < k. \<not> proceeds_at cfg cams start ?st1 tks j"
        "oc = Go (leaving_state cfg cams start ?st1 tks k)"
        by auto
      have e: "\<not> proceeds_at cfg cams start st (tk # tks) j" if "j < Suc k" for j
        using that p0 k(3) by (cases j) (auto simp: proceeds_at_Suc)
      have "Suc k < length (tk # tks) \<and> proceeds_at cfg cams start st (tk # tks) (Suc k)
            \<and> (\<forall>j < Suc k. \<not> proceeds_at cfg cams start st (tk # tks) j)
            \<and> oc = Go (leaving_state cfg cams start st (tk # tks) (Suc k))"
        using k e by (simp add: proceeds_at_Suc leaving_state_Suc)
      then show ?thesis unfolding c Some by (simp del: length_Cons) blast
    qed
  qed
qed

text \<open>
C6. With \<open>wait_all\<close>, a list of distinct cameras, no frame held at the start of the
  turn and no quit key (no window, or no such key pressed), the wait loop is left after
  the first pass at whose end a frame is held for every camera or the clock read is at
  least \<open>wait_timeout\<close> past the start of the turn: not after an earlier pass, and not
  after a later one. The loop is still turning at the end of the ticks exactly when no
  pass met that condition. The turn goes on with the frames held at that moment; when it
  leaves by timeout with a camera missing and the capture is one-shot, the warning with
  the cameras held is printed.
\<close>

theorem wait_all_leaves_at_first_chance:
  assumes "wait_all cfg" and "distinct cams" and "frames st = []"
    and "headless cfg \<or> (\<forall>tk \<in> set tks. \<not> quit_key (key tk))"
  shows "(collect cfg cams start tks st = None
            \<longleftrightarrow> (\<forall>k < length tks. \<not> proceeds_at cfg cams start st tks k))
       \<and> (\<forall>oc. collect cfg cams start tks st = Some oc \<longrightarrow>
            (\<exists>k < length tks. proceeds_at cfg cams start st tks k
               \<and> (\<forall>j < k. \<not> proceeds_at cfg cams start st tks j)
               \<and> oc = Go (leaving_state cfg cams start st tks k)))"
proof -
  have k: "keys_ok cams st" using assms(3) by (simp add: keys_ok_def)
  note c = collect_wait_all[OF assms(1,2) k assms(4), of start]
  show ?thesis
  proof (cases "collect cfg cams start tks st")
    case None
    with c show ?thesis by simp
  next
    case (Some oc)
    with c show ?thesis by auto
  qed
qed

lemma ex_wait_run:
  "map_option (\<lambda>oc. (out (state_of oc), map fst (frames (state_of oc))))
     (collect ex_wait_cfg [''CAM_A'', ''CAM_B''] 0 ex_wait_ticks init_state)
   = Some ([TimeoutWarning [''CAM_A''] ], [''CAM_A''])"
  by (simp add: ex_wait_cfg_def ex_wait_ticks_def ex_cfg_def ex_frame_def init_state_def
      empty_queue_def poll_pass_def poll_cam_def deliver_def arrive_def q_poll_def emit_def
      have_all_def timed_out_def quit_key_def Let_def)

lemma ex_wait_proceeds:
  "\<not> proceeds_at ex_wait_cfg [''CAM_A'', ''CAM_B''] 0 init_state ex_wait_ticks 0"
  "\<not> proceeds_at ex_wait_cfg [''CAM_A'', ''CAM_B''] 0 init_state ex_wait_ticks 1"
  "proceeds_at ex_wait_cfg [''CAM_A'', ''CAM_B''] 0 init_state ex_wait_ticks 2"
  by (simp_all add: proceeds_at_def all_held_def ex_wait_cfg_def ex_wait_ticks_def ex_cfg_def
      ex_frame_def init_state_def empty_queue_def poll_pass_def poll_cam_def deliver_def
      arrive_def q_poll_def Let_def)

theorem wait_all_leaves_at_first_chance_witness:
  "wait_all ex_wait_cfg \<and> distinct [''CAM_A'', ''CAM_B''] \<and> frames init_state = []
   \<and> headless ex_wait_cfg
   \<and> \<not> proceeds_at ex_wait_cfg [''CAM_A'', ''CAM_B''] 0 init_state ex_wait_ticks 0
   \<and> \<not> proceeds_at ex_wait_cfg [''CAM_A'', ''CAM_B''] 0 init_state ex_wait_ticks 1
   \<and> proceeds_at ex_wait_cfg [''CAM_A'', ''CAM_B''] 0 init_state ex_wait_ticks 2
   \<and> collect ex_wait_cfg [''CAM_A'', ''CAM_B''] 0 ex_wait_ticks init_state
       = Some (Go (leaving_state ex_wait_cfg [''CAM_A'', ''CAM_B''] 0 init_state ex_wait_ticks 2))
   \<and> out (leaving_state ex_wait_cfg [''CAM_A'', ''CAM_B''] 0 init_state ex_wait_ticks 2)
       = [TimeoutWarning [''CAM_A''] ]"
proof -
  have a: "wait_all ex_wait_cfg" "headless ex_wait_cfg"
    by (simp_all add: ex_wait_cfg_def ex_cfg_def)
  have b: "distinct [''CAM_A'', ''CAM_B'']" by simp
  have c: "frames init_state = []" by (simp add: init_state_def)
  have l: "length ex_wait_ticks = 4" by (simp add: ex_wait_ticks_def)
  note t = wait_all_leaves_at_first_chance[OF a(1) b c disjI1[OF a(2)], of 0 ex_wait_ticks]
  from t ex_wait_proceeds(3) l obtain oc where
    oc: "collect ex_wait_cfg [''CAM_A'', ''CAM_B''] 0 ex_wait_ticks init_state = Some oc"
    by (cases "collect ex_wait_cfg [''CAM_A'', ''CAM_B''] 0 ex_wait_ticks init_state") auto
  with t obtain k where k: "k < 4"
    "proceeds_at ex_wait_cfg [''CAM_A'', ''CAM_B''] 0 init_state ex_wait_ticks k"
    "\<forall>j < k. \<not> proceeds_at ex_wait_cfg [''CAM_A'', ''CAM_B''] 0 init_state ex_wait_ticks j"
    "oc = Go (leaving_state ex_wait_cfg [''CAM_A'', ''CAM_B''] 0 init_state ex_wait_ticks k)"
    using l by auto
  have "k = 2"
  proof -
    have "k \<noteq> 0"
    proof
      assume "k = 0"
      with k(2) ex_wait_proceeds(1) show False by simp
    qed
    moreover have "k \<noteq> 1"
    proof
      assume "k = 1"
      with k(2) ex_wait_proceeds(2) show False by simp
    qed
    ultimately have "\<not> k < 2" by simp
    moreover have "\<not> 2 < k" using k(3) ex_wait_proceeds(3) by blast
    ultimately show ?thesis by simp
  qed
  with k(4) oc have r: "collect ex_wait_cfg [''CAM_A'', ''CAM_B''] 0 ex_wait_ticks init_state
       = Some (Go (leaving_state ex_wait_cfg [''CAM_A'', ''CAM_B''] 0 init_state ex_wait_ticks 2))"
    by simp
  have "out (leaving_state ex_wait_cfg [''CAM_A'', ''CAM_B''] 0 init_state ex_wait_ticks 2)
       = [TimeoutWarning [''CAM_A''] ]"
    using ex_wait_run unfolding r by simp
  with a b c ex_wait_proceeds r show ?thesis by simp
qed

subsection \<open>The warm-up invariant\<close>

lemma set_dict_set: "set (dict_set k v d) \<subseteq> insert (k, v) (set d)"
  by (induction d) (auto split: if_splits)

lemma past_warmup_dict_set:
  "past_warmup cfg d \<Longrightarrow> warmup_frames cfg < int (fst h) \<Longrightarrow> past_warmup cfg (dict_set k h d)"
  using set_dict_set[of k h d] by (auto simp: past_warmup_def)

lemma past_warmup_Nil [simp]: "past_warmup cfg []"
  by (simp add: past_warmup_def)

lemma past_warmup_append [simp]:
  "past_warmup cfg (xs @ ys) = (past_warmup cfg xs \<and> past_warmup cfg ys)"
  by (auto simp: past_warmup_def)

lemma warm_inv_emit:
  "warm_inv cfg st \<Longrightarrow> past_warmup cfg (writes [e]) \<Longrightarrow> warm_inv cfg (emit e st)"
  by (simp add: warm_inv_def)

lemma queues_deliver_taken [simp]: "taken (queues (deliver as st) c) = taken (queues st c)"
  unfolding deliver_def
proof (induction as arbitrary: st)
  case Nil
  then show ?case by simp
next
  case (Cons a as)
  have "taken (queues (arrive a st) c) = taken (queues st c)"
    by (simp add: arrive_def Let_def)
  with Cons.IH[of "arrive a st"] show ?case by simp
qed

lemma warm_inv_deliver [simp]: "warm_inv cfg (deliver as st) = warm_inv cfg st"
  by (simp add: warm_inv_def)

lemma q_poll_taken:
  "q_poll q = Some (h, q') \<Longrightarrow> fst h = Suc (taken q) \<and> taken q' = Suc (taken q)"
  by (auto simp: q_poll_def split: list.splits)

lemma warm_inv_poll_cam: "warm_inv cfg st \<Longrightarrow> warm_inv cfg (poll_cam cfg c st)"
proof -
  assume inv: "warm_inv cfg st"
  show ?thesis
  proof (cases "c \<in> fst ` set (frames st)")
    case True
    then show ?thesis using inv by (simp add: poll_cam_def)
  next
    case nf: False
    show ?thesis
    proof (cases "q_poll (queues st c)")
      case None
      then show ?thesis using inv nf by (simp add: poll_cam_def)
    next
      case (Some r)
      obtain h q' where r: "r = (h, q')" by (cases r)
      note t = q_poll_taken[OF Some[unfolded r] ]
      have cnt: "warmup_counter st c \<le> int (taken (queues st c))"
        using inv by (simp add: warm_inv_def)
      show ?thesis
      proof (cases "warmup_counter st c < warmup_frames cfg")
        case True
        then have e: "poll_cam cfg c st = st\<lparr>queues := (queues st)(c := q'),
            warmup_counter := (warmup_counter st)(c := warmup_counter st c + 1)\<rparr>"
          using nf Some r by (simp add: poll_cam_def Let_def)
        show ?thesis unfolding e using inv t True cnt by (auto simp: warm_inv_def)
      next
        case False
        then have e: "poll_cam cfg c st = st\<lparr>queues := (queues st)(c := q'),
            per_cam_frames := (per_cam_frames st)(c := per_cam_frames st c + 1),
            frames := dict_set c h (frames st)\<rparr>"
          using nf Some r by (simp add: poll_cam_def Let_def)
        have w: "warmup_frames cfg < int (fst h)" using False cnt t by simp
        have "past_warmup cfg (dict_set c h (frames st))"
          using past_warmup_dict_set[OF _ w] inv by (simp add: warm_inv_def)
        moreover have "warmup_counter st c \<le> 1 + int (taken (queues st c))" using cnt by simp
        ultimately show ?thesis unfolding e using inv t False by (auto simp: warm_inv_def)
      qed
    qed
  qed
qed

lemma warm_inv_poll_pass: "warm_inv cfg st \<Longrightarrow> warm_inv cfg (poll_pass cfg cams st)"
  unfolding poll_pass_def by (induction cams arbitrary: st) (auto simp: warm_inv_poll_cam)

lemma warm_inv_collect:
  "collect cfg cams start tks st = Some oc \<Longrightarrow> warm_inv cfg st \<Longrightarrow> warm_inv cfg (state_of oc)"
proof (induction tks arbitrary: st)
  case Nil
  then show ?case by simp
next
  case (Cons tk tks)
  let ?st1 = "poll_pass cfg cams (deliver (arrivals tk) st)"
  have i1: "warm_inv cfg ?st1" using Cons.prems(2) by (simp add: warm_inv_poll_pass)
  note p = Cons.prems(1)[unfolded collect_unfold]
  show ?case
  proof (cases "wait_all cfg")
    case False
    with p have "oc = Go ?st1" by simp
    then show ?thesis using i1 by simp
  next
    case w: True
    show ?thesis
    proof (cases "have_all cams ?st1 \<or> timed_out cfg start tk")
      case True
      show ?thesis
      proof (cases "timed_out cfg start tk \<and> \<not> have_all cams ?st1 \<and> one_shot cfg")
        case True
        with p w have "oc = Go (emit (TimeoutWarning (map fst (frames ?st1))) ?st1)" by auto
        then show ?thesis using i1 by (simp add: warm_inv_emit writes_single)
      next
        case False
        with p w True have "oc = Go ?st1" by auto
        then show ?thesis using i1 by simp
      qed
    next
      case h: False
      show ?thesis
      proof (cases "\<not> headless cfg \<and> quit_key (key tk)")
        case True
        with p w h have "oc = Leave (emit QuitMsg ?st1)" by auto
        then show ?thesis using i1 by (simp add: warm_inv_emit writes_single)
      next
        case False
        with p w h have "collect cfg cams start tks ?st1 = Some oc" by auto
        from Cons.IH[OF this i1] show ?thesis .
      qed
    qed
  qed
qed

lemma warm_inv_refresh_cam:
  assumes "warm_inv cfg st" and "1 \<le> per_cam_frames st c"
  shows "warm_inv cfg (refresh_cam c st)"
proof (cases "q_poll (queues st c)")
  case None
  then show ?thesis using assms(1) by (simp add: refresh_cam_def)
next
  case (Some r)
  obtain h q' where r: "r = (h, q')" by (cases r)
  note t = q_poll_taken[OF Some[unfolded r] ]
  have e: "refresh_cam c st = st\<lparr>queues := (queues st)(c := q'), frames := dict_set c h (frames st)\<rparr>"
    using Some r by (simp add: refresh_cam_def)
  have "warmup_frames cfg \<le> warmup_counter st c" using assms by (simp add: warm_inv_def)
  moreover have cnt: "warmup_counter st c \<le> int (taken (queues st c))"
    using assms(1) by (simp add: warm_inv_def)
  ultimately have w: "warmup_frames cfg < int (fst h)" using t by simp
  have "past_warmup cfg (dict_set c h (frames st))"
    using past_warmup_dict_set[OF _ w] assms(1) by (simp add: warm_inv_def)
  moreover have "warmup_counter st c \<le> 1 + int (taken (queues st c))" using cnt by simp
  ultimately show ?thesis unfolding e using assms(1) t by (auto simp: warm_inv_def)
qed

lemma warm_inv_refresh_aux:
  "warm_inv cfg st \<Longrightarrow> \<forall>c \<in> set cs. 1 \<le> per_cam_frames st c \<Longrightarrow>
   warm_inv cfg (foldl (\<lambda>s sock. refresh_cam sock s) st cs)"
proof (induction cs arbitrary: st)
  case Nil
  then show ?case by simp
next
  case (Cons c cs)
  have "warm_inv cfg (refresh_cam c st)"
    using warm_inv_refresh_cam[OF Cons.prems(1)] Cons.prems(2) by simp
  moreover have "\<forall>x \<in> set cs. 1 \<le> per_cam_frames (refresh_cam c st) x"
    using Cons.prems(2) by simp
  ultimately show ?case using Cons.IH by simp
qed

lemma warm_inv_refresh:
  "warm_inv cfg st \<Longrightarrow> all_counted cams st \<Longrightarrow> warm_inv cfg (refresh cams st)"
  unfolding refresh_def all_counted_def by (rule warm_inv_refresh_aux)

lemma all_counted_cong:
  "per_cam_frames st' = per_cam_frames st \<Longrightarrow> all_counted cams st' = all_counted cams st"
  by (simp add: all_counted_def)

lemma warm_inv_brightness_loop:
  "warm_inv cfg st \<Longrightarrow> all_counted cams st \<Longrightarrow>
   warm_inv cfg (brightness_loop cfg cams mb ws attempt st)"
proof (induction cfg cams mb ws attempt st rule: brightness_loop.induct)
  case (1 cfg cams mb ws attempt st)
  let ?dark = "too_dark mb (frames st)"
  let ?e = "DarkRetry ?dark (brightness_wait cfg) (attempt + 1) (brightness_retry cfg)"
  let ?st1 = "refresh cams (deliver (first_wait ws) (emit ?e st))"
  have i1: "warm_inv cfg ?st1"
    using "1.prems" by (intro warm_inv_refresh) (simp_all add: warm_inv_emit writes_single all_counted_def)
  have a1: "all_counted cams ?st1" using "1.prems"(2) by (simp add: all_counted_def)
  show ?case
  proof (cases "attempt \<le> brightness_retry cfg \<and> ?dark \<noteq> [] \<and> \<not> attempt + 1 > brightness_retry cfg")
    case True
    then have "brightness_loop cfg cams mb ws attempt st
               = brightness_loop cfg cams mb (tl ws) (attempt + 1) ?st1"
      by (simp add: brightness_loop.simps[of cfg cams mb ws attempt st] Let_def)
    moreover have "warm_inv cfg (brightness_loop cfg cams mb (tl ws) (attempt + 1) ?st1)"
      using "1.IH"[OF _ refl _ _ i1 a1] True by simp
    ultimately show ?thesis by simp
  next
    case False
    then have "brightness_loop cfg cams mb ws attempt st = st
               \<or> brightness_loop cfg cams mb ws attempt st = emit (StillDark (brightness_retry cfg) ?dark) st"
      by (auto simp: brightness_loop.simps[of cfg cams mb ws attempt st] Let_def)
    then show ?thesis using "1.prems"(1) by (auto simp: warm_inv_emit writes_single)
  qed
qed

lemma warm_inv_sharpness_loop:
  "warm_inv cfg st \<Longrightarrow> all_counted cams st \<Longrightarrow>
   warm_inv cfg (sharpness_loop cfg cams ms ws k st)"
proof (induction cfg cams ms ws k st rule: sharpness_loop.induct)
  case (1 cfg cams ms ws k st)
  let ?vs = "sharp_values cfg st"
  let ?st1 = "refresh cams (deliver (first_wait ws) (emit (SharpRetry (avg_sharp ?vs) ms) st))"
  have i1: "warm_inv cfg ?st1"
    using "1.prems" by (intro warm_inv_refresh) (simp_all add: warm_inv_emit writes_single all_counted_def)
  have a1: "all_counted cams ?st1" using "1.prems"(2) by (simp add: all_counted_def)
  show ?case
  proof (cases "k < 3 \<and> ?vs \<noteq> [] \<and> avg_sharp ?vs < ms")
    case True
    then have "sharpness_loop cfg cams ms ws k st = sharpness_loop cfg cams ms (tl ws) (k + 1) ?st1"
      by (simp add: sharpness_loop.simps[of cfg cams ms ws k st] Let_def)
    moreover have "warm_inv cfg (sharpness_loop cfg cams ms (tl ws) (k + 1) ?st1)"
      using "1.IH"[OF _ refl _ _ i1 a1] True by simp
    ultimately show ?thesis by simp
  next
    case False
    then have "sharpness_loop cfg cams ms ws k st = st
               \<or> sharpness_loop cfg cams ms ws k st = emit (SharpOK (avg_sharp ?vs)) st"
      by (auto simp: sharpness_loop.simps[of cfg cams ms ws k st] Let_def)
    then show ?thesis using "1.prems"(1) by (auto simp: warm_inv_emit writes_single)
  qed
qed


lemma warm_inv_last_auto [simp]: "warm_inv cfg (st\<lparr>last_auto_capture := t\<rparr>) = warm_inv cfg st"
  by (simp add: warm_inv_def)

lemma warm_inv_quality_gates:
  "warm_inv cfg st \<Longrightarrow> all_counted cams st \<Longrightarrow> warm_inv cfg (quality_gates cfg cams env st)"
proof -
  assume a: "warm_inv cfg st" "all_counted cams st"
  have b: "warm_inv cfg (brightness_stage cfg cams (dark_waits env) st)"
    using a by (simp add: brightness_stage_def warm_inv_brightness_loop split: option.splits)
  have c: "all_counted cams (brightness_stage cfg cams (dark_waits env) st)"
    using a(2) by (simp add: brightness_stage_def all_counted_def brightness_loop_fields
        split: option.splits)
  show ?thesis
    unfolding quality_gates_def using b c
    by (simp add: sharpness_stage_def warm_inv_sharpness_loop split: option.splits)
qed

lemma writes_map_Imwrite: "writes (map (\<lambda>(sock, h). Imwrite sock ts h) fs) = fs"
  by (induction fs) (auto simp: writes_def)

lemma warm_inv_save_batch: "warm_inv cfg st \<Longrightarrow> warm_inv cfg (save_batch ts st)"
  unfolding save_batch_eq
  by (simp add: warm_inv_def writes_Cons[of "SavingBatch _"] writes_single writes_map_Imwrite)

lemma lacking_Nil_counted:
  "lacking cfg cams st = [] \<Longrightarrow> 1 \<le> min_frames_each cfg \<Longrightarrow> all_counted cams st"
  by (auto simp: lacking_def all_counted_def filter_empty_conv)

lemma warm_inv_evaluate:
  assumes "warm_inv cfg st" and "1 \<le> min_frames_each cfg"
  shows "warm_inv cfg (state_of (evaluate cfg cams env st))"
proof -
  let ?st1 = "if auto_due cfg env st then st\<lparr>last_auto_capture := now env\<rparr> else st"
  have i1: "warm_inv cfg ?st1" using assms(1) by simp
  show ?thesis
  proof (cases "\<not> headless cfg \<and> quit_key (key_pressed env)")
    case True
    then have q: "(\<not> headless cfg \<and> quit_key (key_pressed env)) = True" by simp
    have "evaluate cfg cams env st = Leave (emit QuitMsg ?st1)"
      unfolding evaluate_def Let_def q if_True ..
    then show ?thesis using i1 by (simp add: warm_inv_emit writes_single del: if_split split del: if_split)
  next
    case False
    then have q: "(\<not> headless cfg \<and> quit_key (key_pressed env)) = False" by simp
    show ?thesis
    proof (cases "do_capture cfg env st \<and> frames st \<noteq> []")
      case False
      then have d: "(do_capture cfg env st \<and> frames st \<noteq> []) = False" by simp
      have "evaluate cfg cams env st = Go ?st1"
        unfolding evaluate_def Let_def q d if_False ..
      then show ?thesis using i1 by (simp del: if_split split del: if_split)
    next
      case True
      then have d: "(do_capture cfg env st \<and> frames st \<noteq> []) = True" by simp
      show ?thesis
      proof (cases "lacking cfg cams ?st1 \<noteq> []")
        case True
        then have l: "(lacking cfg cams ?st1 \<noteq> []) = True" by simp
        have "evaluate cfg cams env st = Go (emit (Postponed (lacking cfg cams ?st1)) ?st1)"
          unfolding evaluate_def Let_def q d l if_False if_True ..
        then show ?thesis using i1 by (simp add: warm_inv_emit writes_single del: if_split split del: if_split)
      next
        case False
        then have l: "(lacking cfg cams ?st1 \<noteq> []) = False" by simp
        let ?st4 = "save_batch (timestamp env) (quality_gates cfg cams env ?st1)"
        have e: "evaluate cfg cams env st = (if one_shot cfg then Leave (emit OneShotDone ?st4) else Go ?st4)"
          unfolding evaluate_def Let_def q d l if_False if_True ..
        have "lacking cfg cams ?st1 = []" using False by simp
        then have "all_counted cams ?st1" using assms(2) by (rule lacking_Nil_counted)
        then have i4: "warm_inv cfg ?st4"
          using i1 by (intro warm_inv_save_batch warm_inv_quality_gates)
        show ?thesis
        proof (cases "one_shot cfg")
          case True
          then have "evaluate cfg cams env st = Leave (emit OneShotDone ?st4)" unfolding e by simp
          then show ?thesis using i4 by (simp add: warm_inv_emit writes_single del: if_split split del: if_split)
        next
          case False
          then have "evaluate cfg cams env st = Go ?st4" unfolding e by simp
          then show ?thesis using i4 by (simp del: if_split split del: if_split)
        qed
      qed
    qed
  qed
qed

lemma warm_inv_reset [simp]:
  "warm_inv cfg st \<Longrightarrow> warm_inv cfg (st\<lparr>frames := []\<rparr>)"
  by (simp add: warm_inv_def)

lemma warm_inv_cycle:
  assumes "cycle cfg cams env st = Some oc" and "warm_inv cfg st" and "1 \<le> min_frames_each cfg"
  shows "warm_inv cfg (state_of oc)"
proof -
  from assms(1) obtain oc1 where
    c: "collect cfg cams (start_wait_cycle env) (passes env) (st\<lparr>frames := []\<rparr>) = Some oc1"
    by (auto simp: cycle_def split: option.splits)
  have i: "warm_inv cfg (state_of oc1)" using warm_inv_collect[OF c] assms(2) by simp
  show ?thesis
  proof (cases oc1)
    case (Leave s)
    then have "oc = Leave s" using assms(1) c by (simp add: cycle_def)
    then show ?thesis using i Leave by simp
  next
    case (Go s)
    then have "oc = evaluate cfg cams env s" using assms(1) c by (simp add: cycle_def)
    then show ?thesis using warm_inv_evaluate[OF _ assms(3)] i Go by simp
  qed
qed

lemma warm_inv_run:
  "run cfg cams envs st = Some st' \<Longrightarrow> warm_inv cfg st \<Longrightarrow> 1 \<le> min_frames_each cfg \<Longrightarrow>
   warm_inv cfg st'"
proof (induction envs arbitrary: st)
  case Nil
  then show ?case by simp
next
  case (Cons env envs)
  from Cons.prems(1) obtain oc where c: "cycle cfg cams env st = Some oc"
    by (auto split: option.splits)
  note i = warm_inv_cycle[OF c Cons.prems(2,3)]
  show ?case
  proof (cases oc)
    case (Leave s)
    then show ?thesis using Cons.prems(1) c i by simp
  next
    case (Go s)
    then have "run cfg cams envs s = Some st'" using Cons.prems(1) c by simp
    from Cons.IH[OF this _ Cons.prems(3)] i Go show ?thesis by simp
  qed
qed


lemma same_but_taken_refl [simp]: "same_but_taken st st"
  by (simp add: same_but_taken_def)

lemma same_but_taken_trans:
  "same_but_taken st st1 \<Longrightarrow> same_but_taken st1 st2 \<Longrightarrow> same_but_taken st st2"
  unfolding same_but_taken_def by (metis order_trans)

lemma same_but_taken_emit:
  "writes [e] = [] \<Longrightarrow> same_but_taken st (emit e st)"
  by (simp add: same_but_taken_def)

lemma same_but_taken_command: "same_but_taken st (command_focus c n pos st)"
  by (auto simp: command_focus_def focus_call_def same_but_taken_emit writes_single)

lemma same_but_taken_deliver: "same_but_taken st (deliver as st)"
  by (simp add: same_but_taken_def)

lemma same_but_taken_take:
  "q_poll (queues st c) = Some (h, q') \<Longrightarrow> same_but_taken st (take_from c q' st)"
  by (auto simp: same_but_taken_def take_from_def dest: q_poll_taken)

lemma same_but_taken_drain:
  "drain c t0 tks st = Some st' \<Longrightarrow> same_but_taken st st'"
proof (induction tks arbitrary: st)
  case Nil
  then show ?case by simp
next
  case (Cons tk tks)
  let ?st1 = "deliver (arrivals tk) st"
  have d: "same_but_taken st ?st1" by (rule same_but_taken_deliver)
  show ?case
  proof (cases "clock tk - t0 < 1")
    case False
    then have "st' = ?st1" using Cons.prems by (simp add: Let_def)
    then show ?thesis using d by simp
  next
    case True
    show ?thesis
    proof (cases "q_poll (queues ?st1 c)")
      case None
      then have "st' = ?st1" using Cons.prems True by (simp add: Let_def)
      then show ?thesis using d by simp
    next
      case (Some r)
      obtain h q' where r: "r = (h, q')" by (cases r)
      have "drain c t0 tks (take_from c q' ?st1) = Some st'"
        using Cons.prems True Some r by (simp add: Let_def)
      from Cons.IH[OF this] same_but_taken_take[OF Some[unfolded r] ] d
      show ?thesis by (blast intro: same_but_taken_trans)
    qed
  qed
qed

lemma same_but_taken_probe:
  "probe c t0 tks st = Some (r, st') \<Longrightarrow> same_but_taken st st'"
proof (induction tks arbitrary: st)
  case Nil
  then show ?case by simp
next
  case (Cons tk tks)
  let ?st1 = "deliver (arrivals tk) st"
  have d: "same_but_taken st ?st1" by (rule same_but_taken_deliver)
  show ?case
  proof (cases "clock tk - t0 < 1 / 2")
    case False
    then have "st' = ?st1" using Cons.prems by (simp add: Let_def)
    then show ?thesis using d by simp
  next
    case True
    show ?thesis
    proof (cases "q_poll (queues ?st1 c)")
      case None
      then have "probe c t0 tks ?st1 = Some (r, st')" using Cons.prems True by (simp add: Let_def)
      from Cons.IH[OF this] d show ?thesis by (blast intro: same_but_taken_trans)
    next
      case (Some x)
      obtain h q' where x: "x = (h, q')" by (cases x)
      have "st' = take_from c q' ?st1" using Cons.prems True Some x by (simp add: Let_def)
      with same_but_taken_take[OF Some[unfolded x] ] d
      show ?thesis by (blast intro: same_but_taken_trans)
    qed
  qed
qed

lemma same_but_taken_scan_positions:
  "scan_positions c n ps pes best st = Some (best', st') \<Longrightarrow> same_but_taken st st'"
proof (induction ps arbitrary: pes best st)
  case Nil
  then show ?case by simp
next
  case (Cons pos ps)
  show ?case
  proof (cases pes)
    case Nil
    with Cons.prems show ?thesis by simp
  next
    case (Cons pe pes')
    note pes = Cons
    let ?st1 = "command_focus c n pos st"
    have s1: "same_but_taken st ?st1" by (rule same_but_taken_command)
    show ?thesis
    proof (cases "set_raises pe")
      case True
      then have "scan_positions c n ps pes' best (emit (FocusSetFailed pos) ?st1) = Some (best', st')"
        using Cons.prems pes by (simp add: Let_def)
      from Cons.IH[OF this] s1 same_but_taken_emit[of "FocusSetFailed pos" ?st1]
      show ?thesis by (auto simp: writes_single intro: same_but_taken_trans)
    next
      case False
      from Cons.prems False pes obtain r st2 where
        pr: "probe c (eval_start pe) (eval_ticks pe) ?st1 = Some (r, st2)"
        by (auto simp: Let_def split: option.splits)
      have s2: "same_but_taken st st2"
        using same_but_taken_probe[OF pr] s1 by (blast intro: same_but_taken_trans)
      show ?thesis
      proof (cases r)
        case None
        then have "scan_positions c n ps pes' best st2 = Some (best', st')"
          using Cons.prems pes False pr by (simp add: Let_def)
        from Cons.IH[OF this] s2 show ?thesis by (blast intro: same_but_taken_trans)
      next
        case (Some v)
        then have "scan_positions c n ps pes' (better best pos v) (emit (FocusSample pos v) st2)
                   = Some (best', st')"
          using Cons.prems pes False pr by (simp add: Let_def)
        from Cons.IH[OF this] s2 same_but_taken_emit[of "FocusSample pos v" st2]
        show ?thesis by (auto simp: writes_single intro: same_but_taken_trans)
      qed
    qed
  qed
qed

lemma same_but_taken_scan_cam:
  assumes "scan_cam c n ps e st = Some st'"
  shows "same_but_taken st st'"
proof -
  from assms obtain st1 where
    d: "drain c (drain_start e) (drain_ticks e) (emit (FocusScanning c) st) = Some st1"
    by (auto simp: scan_cam_def split: option.splits)
  from assms d obtain bv bp st2 where
    sp: "scan_positions c n ps (probes e) (- 1, None) st1 = Some ((bv, bp), st2)"
    by (auto simp: scan_cam_def split: option.splits)
  have "same_but_taken st (emit (FocusScanning c) st)"
    by (simp add: same_but_taken_emit writes_single)
  with same_but_taken_drain[OF d] same_but_taken_scan_positions[OF sp]
  have s2: "same_but_taken st st2" by (blast intro: same_but_taken_trans)
  show ?thesis
  proof (cases bp)
    case None
    then have "st' = emit (FocusNoBest c) st2" using assms d sp by (simp add: scan_cam_def)
    with s2 same_but_taken_emit[of "FocusNoBest c" st2]
    show ?thesis by (auto simp: writes_single intro: same_but_taken_trans)
  next
    case (Some p)
    then have "st' = command_focus c n p (emit (FocusBest c p bv) st2)"
      using assms d sp by (simp add: scan_cam_def)
    with s2 same_but_taken_emit[of "FocusBest c p bv" st2]
      same_but_taken_command[of "emit (FocusBest c p bv) st2" c n p]
    show ?thesis by (auto simp: writes_single intro: same_but_taken_trans)
  qed
qed

lemma same_but_taken_scan_all:
  "scan_all nodes ps targets es st = Some st' \<Longrightarrow> same_but_taken st st'"
proof (induction targets arbitrary: es st)
  case Nil
  then show ?case by simp
next
  case (Cons t targets)
  from Cons.prems(1) obtain e es' where es: "es = e # es'" by (cases es) auto
  show ?case
  proof (cases "map_of nodes t")
    case None
    then have "scan_all nodes ps targets es' (emit (FocusCamNotFound t) st) = Some st'"
      using Cons.prems(1) es by simp
    from Cons.IH[OF this] same_but_taken_emit[of "FocusCamNotFound t" st]
    show ?thesis by (auto simp: writes_single intro: same_but_taken_trans)
  next
    case (Some m)
    show ?thesis
    proof (cases "supported m")
      case False
      then have "scan_all nodes ps targets es' (emit (FocusUnsupported t) st) = Some st'"
        using Cons.prems(1) es Some by simp
      from Cons.IH[OF this] same_but_taken_emit[of "FocusUnsupported t" st]
      show ?thesis by (auto simp: writes_single intro: same_but_taken_trans)
    next
      case True
      from True Some Cons.prems(1) es obtain st1 where
        sc: "scan_cam t m ps e st = Some st1" and
        rest: "scan_all nodes ps targets es' st1 = Some st'"
        by (auto split: option.splits)
      from Cons.IH[OF rest] same_but_taken_scan_cam[OF sc]
      show ?thesis by (blast intro: same_but_taken_trans)
    qed
  qed
qed

lemma warm_inv_same:
  assumes "warm_inv cfg st" and "same_but_taken st st'"
  shows "warm_inv cfg st'"
proof -
  have "warmup_counter st' c \<le> int (taken (queues st' c))" for c
  proof -
    have "warmup_counter st c \<le> int (taken (queues st c))" using assms(1) by (simp add: warm_inv_def)
    moreover have "taken (queues st c) \<le> taken (queues st' c)"
      using assms(2) by (simp add: same_but_taken_def)
    moreover have "warmup_counter st' c = warmup_counter st c"
      using assms(2) by (simp add: same_but_taken_def)
    ultimately show ?thesis by simp
  qed
  then show ?thesis using assms by (simp add: warm_inv_def same_but_taken_def)
qed

lemma warm_inv_init: "warm_inv cfg init_state"
  by (simp add: warm_inv_def init_state_def empty_queue_def)

text \<open>
  With a minimum of at least one frame per camera (\<open>min_frames_each\<close> is 1 or more),
  every frame that a finished run of the program has written is past warm-up: its ordinal
  among the frames taken from its camera's queue is greater than \<open>warmup_frames\<close>. The
  readiness test then lets the quality stages run only when every camera has left
  warm-up, so the re-polls of the retries, which do not look at the warm-up counter,
  cannot take a warm-up frame.
\<close>

lemma written_frames_past_warmup:
  assumes "1 \<le> min_frames_each cfg" and "main cfg nodes ses ces = Some st'"
  shows "past_warmup cfg (writes (out st'))"
proof -
  from assms(2) obtain st where
    f: "focus_phase cfg nodes ses init_state = Some st" and
    r: "run cfg (map fst nodes) ces st = Some st'"
    by (auto simp: main_def split: option.splits)
  have "same_but_taken init_state st"
    using f same_but_taken_scan_all by (auto simp: focus_phase_def split: if_splits)
  then have "warm_inv cfg st" using warm_inv_init by (rule warm_inv_same[rotated])
  from warm_inv_run[OF r this assms(1)] show ?thesis by (simp add: warm_inv_def)
qed

lemmas main_simps = main_def focus_phase_def ex_simps gate_simps quality_gates_def save_batch_eq
  writes_def ex_node_def ex_fixed_def

text \<open>
  C2. The passes of the wait loop discard the first \<open>warmup_frames\<close> frames of a camera,
  but the re-polls of the brightness and sharpness retries place in the batch whatever
  frame a queue holds, without looking at the warm-up counter. With a warm-up of 2
  frames, a brightness threshold of 40 and \<open>min_frames_each = 0\<close>: the third frame of
  camera A is dark, and the retry pass that follows takes the first frame of camera B,
  still in warm-up; that frame (ordinal 1) is written.
\<close>

theorem warmup_frame_written_when_minimum_is_zero:
  "min_frames_each ex_zero_min_cfg = 0 \<and> warmup_frames ex_zero_min_cfg = 2
   \<and> map_option (writes \<circ> out)
        (main ex_zero_min_cfg [(''CAM_A'', ex_node), (''CAM_B'', ex_node)] [] ex_dark_third)
     = Some [(''CAM_A'', (4, ex_frame 100 50)), (''CAM_B'', (1, ex_frame 100 50))]"
  by (simp add: main_simps ex_zero_min_cfg_def ex_dark_third_def)

subsection \<open>The bound of the sharpness retries\<close>

lemma sharp_retries_simps [simp]:
  "sharp_retries [] = 0"
  "sharp_retries (SharpRetry a m # evs) = Suc (sharp_retries evs)"
  "sharp_retries [SharpOK a] = 0"
  by (simp_all add: sharp_retries_def)

lemma sharpness_loop_log:
  "\<exists>new. out (sharpness_loop cfg cams ms ws k st) = out st @ new
     \<and> sharp_retries new \<le> 3 - k
     \<and> (\<forall>e \<in> set new. (\<exists>a. e = SharpRetry a ms \<and> a < ms) \<or> (\<exists>a. e = SharpOK a \<and> \<not> a < ms))"
proof (induction cfg cams ms ws k st rule: sharpness_loop.induct)
  case (1 cfg cams ms ws k st)
  let ?vs = "sharp_values cfg st"
  let ?st1 = "refresh cams (deliver (first_wait ws) (emit (SharpRetry (avg_sharp ?vs) ms) st))"
  show ?case
  proof (cases "k < 3 \<and> ?vs \<noteq> [] \<and> avg_sharp ?vs < ms")
    case True
    then have eq: "sharpness_loop cfg cams ms ws k st = sharpness_loop cfg cams ms (tl ws) (k + 1) ?st1"
      by (simp add: sharpness_loop.simps[of cfg cams ms ws k st] Let_def)
    from "1.IH"[OF _ refl] True obtain new where
      n: "out (sharpness_loop cfg cams ms (tl ws) (k + 1) ?st1) = out ?st1 @ new"
      "sharp_retries new \<le> 3 - (k + 1)"
      "\<forall>e \<in> set new. (\<exists>a. e = SharpRetry a ms \<and> a < ms) \<or> (\<exists>a. e = SharpOK a \<and> \<not> a < ms)"
      by blast
    show ?thesis
      unfolding eq using n True
      by (intro exI[of _ "SharpRetry (avg_sharp ?vs) ms # new"]) auto
  next
    case False
    note u = sharpness_loop.simps[of cfg cams ms ws k st]
    show ?thesis
    proof (cases "k < 3 \<and> ?vs \<noteq> []")
      case True
      with False have "\<not> avg_sharp ?vs < ms" by simp
      moreover from this True have "sharpness_loop cfg cams ms ws k st = emit (SharpOK (avg_sharp ?vs)) st"
        unfolding u Let_def by simp
      ultimately show ?thesis by simp
    next
      case False
      then have "sharpness_loop cfg cams ms ws k st = st"
        unfolding u Let_def by auto
      then show ?thesis by simp
    qed
  qed
qed

text \<open>
  The part of the sharpness stage that holds for every input: at most three retry
  passes, each announced by a line with an average below the threshold.
\<close>

lemma sharpness_stage_bounded:
  "\<exists>new. out (sharpness_stage cfg cams ws st) = out st @ new \<and> sharp_retries new \<le> 3"
proof (cases "min_sharpness cfg")
  case None
  then show ?thesis by (simp add: sharpness_stage_def)
next
  case (Some ms)
  from sharpness_loop_log[of cfg cams ms ws 0 st] obtain new where
    "out (sharpness_loop cfg cams ms ws 0 st) = out st @ new" "sharp_retries new \<le> 3 - 0"
    by blast
  then show ?thesis using Some by (auto simp: sharpness_stage_def)
qed

subsection \<open>The brightness retries\<close>



















end
